theory Spec2Isabelle
  imports Complex_Main "HOL-Library.Multiset"
begin

unbundle bit_operations_syntax

section \<open>Exceptions\<close>

text \<open>
  Every \<^verbatim>\<open>raise\<close> that can leave one of the sampling functions of \<^verbatim>\<open>main.py\<close> is a
  value of this type; a function that can raise returns \<open>error + 'a\<close>, with \<open>Inl\<close> for the
  exception.
\<close>

datatype error = IndexError | ValueError | AddressValueError | TypeError

section \<open>The \<^verbatim>\<open>ipaddress\<close> objects the program uses\<close>

text \<open>
  An \<^verbatim>\<open>IPv4Address\<close> is its integer \<^verbatim>\<open>_ip\<close>. The constructor from an integer rejects a
  negative value and a value above \<^verbatim>\<open>_ALL_ONES\<close>, so the integer of an address is a
  natural number below \<open>2 ^ 32\<close>.
\<close>

type_synonym IPv4Address = nat

definition ALL_ONES :: int where
  "ALL_ONES = 2 ^ 32 - 1"

definition IPv4Address_of_int :: "int \<Rightarrow> error + IPv4Address" where
  "IPv4Address_of_int address =
     (if address < 0 then Inl AddressValueError
      else if address > ALL_ONES then Inl AddressValueError
      else Inr (nat address))"

text \<open>\<^verbatim>\<open>IPv4Address.__add__\<close>: \<^verbatim>\<open>self.__class__(int(self) + other)\<close>.\<close>

definition address_add :: "IPv4Address \<Rightarrow> int \<Rightarrow> error + IPv4Address" where
  "address_add a other = IPv4Address_of_int (int a + other)"

text \<open>
  An \<^verbatim>\<open>IPv4Network\<close> holds its network address and its prefix length. The derived
  attributes are computed as the library computes them: the host mask from the prefix
  length, the broadcast address as \<^verbatim>\<open>network_address | hostmask\<close>, and
  \<^verbatim>\<open>num_addresses\<close> as \<^verbatim>\<open>int(broadcast_address) - int(network_address) + 1\<close>.
\<close>

record IPv4Network =
  network_address :: IPv4Address
  prefixlen :: nat

definition hostmask :: "IPv4Network \<Rightarrow> nat" where
  "hostmask net = 2 ^ (32 - prefixlen net) - 1"

definition broadcast_address :: "IPv4Network \<Rightarrow> IPv4Address" where
  "broadcast_address net = network_address net OR hostmask net"

definition num_addresses :: "IPv4Network \<Rightarrow> int" where
  "num_addresses net = int (broadcast_address net) - int (network_address net) + 1"

text \<open>
  What the constructor \<^verbatim>\<open>IPv4Network(c)\<close> guarantees of every network object: a prefix
  length of at most 32, an address below \<open>2 ^ 32\<close>, and no host bit set.
\<close>

definition wf_network :: "IPv4Network \<Rightarrow> bool" where
  "wf_network net \<longleftrightarrow>
     prefixlen net \<le> 32 \<and> network_address net < 2 ^ 32 \<and>
     network_address net AND hostmask net = 0"

text \<open>\<^verbatim>\<open>address in net\<close>, as \<^verbatim>\<open>_BaseNetwork.__contains__\<close> decides it.\<close>

definition contains :: "IPv4Network \<Rightarrow> IPv4Address \<Rightarrow> bool" where
  "contains net a \<longleftrightarrow> network_address net \<le> a \<and> a \<le> broadcast_address net"

section \<open>The \<^verbatim>\<open>random\<close> module\<close>

text \<open>
  The generator's hidden state is the sequence of raw draws it will still produce. Each
  primitive consumes draws from the front and reduces them into the range the library
  documents, so every sequence of results the library can produce is the result for some
  state, and a result is a function of the state alone.
\<close>

type_synonym rng = "nat \<Rightarrow> nat"

definition next_raw :: "rng \<Rightarrow> nat \<times> rng" where
  "next_raw g = (g 0, \<lambda>i. g (Suc i))"

text \<open>The state after \<open>d\<close> draws.\<close>

definition advance :: "nat \<Rightarrow> rng \<Rightarrow> rng" where
  "advance d g = (\<lambda>i. g (i + d))"

text \<open>\<^verbatim>\<open>_randbelow(n)\<close> for \<open>n > 0\<close>: an integer in \<open>[0, n)\<close>.\<close>

definition randbelow :: "nat \<Rightarrow> rng \<Rightarrow> nat \<times> rng" where
  "randbelow n g = (case next_raw g of (r, g') \<Rightarrow> (r mod n, g'))"

text \<open>
  \<^verbatim>\<open>randint(a, b)\<close> is \<^verbatim>\<open>randrange(a, b + 1)\<close>: with \<open>width = b + 1 - a\<close> it returns
  \<open>a + _randbelow(width)\<close> when the width is positive and raises \<^verbatim>\<open>ValueError\<close> otherwise.
\<close>

definition randint :: "int \<Rightarrow> int \<Rightarrow> rng \<Rightarrow> error + (int \<times> rng)" where
  "randint a b g =
     (let width = b + 1 - a in
      if width > 0 then (case randbelow (nat width) g of (r, g') \<Rightarrow> Inr (a + int r, g'))
      else Inl ValueError)"

text \<open>\<^verbatim>\<open>itertools.accumulate(weights)\<close>: the running sums.\<close>

fun accumulate_from :: "int \<Rightarrow> int list \<Rightarrow> int list" where
  "accumulate_from acc [] = []"
| "accumulate_from acc (w # ws) = (acc + w) # accumulate_from (acc + w) ws"

definition accumulate :: "int list \<Rightarrow> int list" where
  "accumulate ws = accumulate_from 0 ws"

text \<open>
  \<^verbatim>\<open>bisect.bisect_right(a, x, lo, hi)\<close>:
  \<^verbatim>\<open>while lo < hi: mid = (lo + hi) // 2; if x < a[mid]: hi = mid else: lo = mid + 1\<close>.
\<close>

function bisect_right :: "int list \<Rightarrow> int \<Rightarrow> nat \<Rightarrow> nat \<Rightarrow> nat" where
  "bisect_right a x lo hi =
     (if lo < hi then
        (let mid = (lo + hi) div 2 in
         if x < a ! mid then bisect_right a x lo mid else bisect_right a x (mid + 1) hi)
      else lo)"
  by pat_completeness auto
termination
  by (relation "measure (\<lambda>(a, x, lo, hi). hi - lo)") auto

declare bisect_right.simps [simp del]

text \<open>
  \<^verbatim>\<open>random.choices(population, weights=weights, k=k)\<close>. The cumulative weights must match
  the population in length (\<^verbatim>\<open>ValueError\<close>); \<^verbatim>\<open>cum_weights[-1]\<close> raises \<^verbatim>\<open>IndexError\<close> on an
  empty population; a total that is not positive raises \<^verbatim>\<open>ValueError\<close>. Each of the \<open>k\<close>
  draws is \<^verbatim>\<open>population[bisect(cum_weights, random() * total, 0, n - 1)]\<close>; the weights are
  integers, so the index depends on the integer part of \<^verbatim>\<open>random() * total\<close> only, a number
  in \<open>[0, total)\<close>. A negative \<open>k\<close> repeats zero times.
\<close>

primrec draw_choices :: "'a list \<Rightarrow> int list \<Rightarrow> int \<Rightarrow> nat \<Rightarrow> nat \<Rightarrow> rng \<Rightarrow> 'a list \<times> rng" where
  "draw_choices population cum_weights total_weight hi 0 g = ([], g)"
| "draw_choices population cum_weights total_weight hi (Suc k) g =
     (case randbelow (nat total_weight) g of (r, g1) \<Rightarrow>
        (case draw_choices population cum_weights total_weight hi k g1 of (rest, g2) \<Rightarrow>
           (population ! bisect_right cum_weights (int r) 0 hi # rest, g2)))"

definition choices :: "'a list \<Rightarrow> int list \<Rightarrow> int \<Rightarrow> rng \<Rightarrow> error + ('a list \<times> rng)" where
  "choices population weights k g =
     (let n = length population; cum_weights = accumulate weights in
      if length cum_weights \<noteq> n then Inl ValueError
      else if cum_weights = [] then Inl IndexError
      else (let total_weight = last cum_weights in
            if total_weight \<le> 0 then Inl ValueError
            else Inr (draw_choices population cum_weights total_weight (n - 1) (nat k) g)))"

text \<open>
  \<^verbatim>\<open>random.sample(population, k)\<close> raises \<^verbatim>\<open>ValueError\<close> unless \<open>0 \<le> k \<le> n\<close> and then
  selects in one of two ways, by the size of the population:
  \<^verbatim>\<open>setsize = 21; if k > 5: setsize += 4 ** _ceil(_log(k * 3, 4))\<close>. The exponent is the
  least \<open>e\<close> with \<open>3 * k \<le> 4 ^ e\<close>; \<open>3 * k\<close> is never a power of 4, so the ceiling of the
  floating-point logarithm is that number for every length a list can have.
\<close>

fun ceil_log4 :: "nat \<Rightarrow> nat" where
  "ceil_log4 x = (if x \<le> 1 then 0 else Suc (ceil_log4 ((x + 3) div 4)))"

declare ceil_log4.simps [simp del]

definition setsize :: "nat \<Rightarrow> nat" where
  "setsize k = 21 + (if k > 5 then 4 ^ ceil_log4 (k * 3) else 0)"

text \<open>
  For \<open>n \<le> setsize\<close>, \<open>k\<close> rounds of
  \<^verbatim>\<open>j = randbelow(n - i); result[i] = pool[j]; pool[j] = pool[n - i - 1]\<close> on a copy of the
  population.
\<close>

primrec sample_loop :: "'a list \<Rightarrow> nat \<Rightarrow> nat \<Rightarrow> nat \<Rightarrow> rng \<Rightarrow> 'a list \<times> rng" where
  "sample_loop pool n i 0 g = ([], g)"
| "sample_loop pool n i (Suc k) g =
     (case randbelow (n - i) g of (j, g1) \<Rightarrow>
        (case sample_loop (pool[j := pool ! (n - i - 1)]) n (Suc i) k g1 of (rest, g2) \<Rightarrow>
           (pool ! j # rest, g2)))"

text \<open>
  For a larger population the selected indices are kept in a set and an index that was
  selected before is drawn again:
  \<^verbatim>\<open>j = randbelow(n); while j in selected: j = randbelow(n)\<close>. The loop has no bound, so its
  result is optional: \<open>None\<close> when the generator never delivers a fresh index.
\<close>

partial_function (option) redraw :: "nat \<Rightarrow> nat set \<Rightarrow> rng \<Rightarrow> (nat \<times> rng) option" where
  "redraw n selected g =
     (if fst (randbelow n g) \<in> selected then redraw n selected (snd (randbelow n g))
      else Some (randbelow n g))"

text \<open>
  \<^verbatim>\<open>for i in range(k): j = ...; selected_add(j); result[i] = population[j]\<close>.
\<close>

primrec sample_set_loop :: "'a list \<Rightarrow> nat \<Rightarrow> nat set \<Rightarrow> nat \<Rightarrow> rng \<Rightarrow> ('a list \<times> rng) option" where
  "sample_set_loop population n selected 0 g = Some ([], g)"
| "sample_set_loop population n selected (Suc k) g =
     (case redraw n selected g of
        None \<Rightarrow> None
      | Some (j, g1) \<Rightarrow>
          (case sample_set_loop population n (insert j selected) k g1 of
             None \<Rightarrow> None
           | Some (rest, g2) \<Rightarrow> Some (population ! j # rest, g2)))"

text \<open>The call: \<open>None\<close> when it does not return, an exception or the selection otherwise.\<close>

definition sample :: "'a list \<Rightarrow> int \<Rightarrow> rng \<Rightarrow> (error + ('a list \<times> rng)) option" where
  "sample population k g =
     (let n = length population in
      if \<not> (0 \<le> k \<and> k \<le> int n) then Some (Inl ValueError)
      else if n \<le> setsize (nat k) then Some (Inr (sample_loop population n 0 (nat k) g))
      else map_option Inr (sample_set_loop population n {} (nat k) g))"

text \<open>
  A generator state that delivers every index below \<open>n\<close> again after every point; a
  constant stream is not one.
\<close>

definition fair :: "nat \<Rightarrow> rng \<Rightarrow> bool" where
  "fair n g \<longleftrightarrow> (\<forall>d. \<forall>j<n. \<exists>i. g (d + i) mod n = j)"

section \<open>\<^verbatim>\<open>generate_random_ips\<close>\<close>

text \<open>The offset of one drawn block (lines 50 to 53).\<close>

definition pick_offset :: "IPv4Network \<Rightarrow> rng \<Rightarrow> error + (int \<times> rng)" where
  "pick_offset net g =
     (if num_addresses net > 2 then randint 1 (num_addresses net - 2) g
      else Inr (0, g))"

text \<open>The loop over \<^verbatim>\<open>chosen_nets\<close> (lines 49 to 54); \<open>ips\<close> is the list built so far.\<close>

fun ips_loop :: "IPv4Network list \<Rightarrow> IPv4Address list \<Rightarrow> rng \<Rightarrow> error + (IPv4Address list \<times> rng)" where
  "ips_loop [] ips g = Inr (ips, g)"
| "ips_loop (net # nets) ips g =
     (case pick_offset net g of
        Inl e \<Rightarrow> Inl e
      | Inr (offset, g1) \<Rightarrow>
          (case address_add (network_address net) offset of
             Inl e \<Rightarrow> Inl e
           | Inr ip \<Rightarrow> ips_loop nets (ips @ [ip]) g1))"

definition generate_random_ips :: "IPv4Network list \<Rightarrow> int \<Rightarrow> rng \<Rightarrow> error + (IPv4Address list \<times> rng)" where
  "generate_random_ips networks cnt g =
     (let weights = map num_addresses networks in
      case choices networks weights cnt g of
        Inl e \<Rightarrow> Inl e
      | Inr (chosen_nets, g1) \<Rightarrow> ips_loop chosen_nets [] g1)"

section \<open>\<^verbatim>\<open>generate_random_ips_from_list\<close>\<close>

text \<open>
  \<^verbatim>\<open>IPv4Address(ip)\<close> for a string: a \<^verbatim>\<open>/\<close> in the string and the empty string are rejected,
  the string is split at every dot into exactly four octets, and \<^verbatim>\<open>_parse_octet\<close> accepts an
  octet of one to three ASCII digits with no leading zero and a value of at most 255. Every
  rejection surfaces as \<^verbatim>\<open>AddressValueError\<close>.
\<close>

fun split_from :: "char \<Rightarrow> string \<Rightarrow> string \<Rightarrow> string list" where
  "split_from sep cur [] = [rev cur]"
| "split_from sep cur (c # cs) =
     (if c = sep then rev cur # split_from sep [] cs else split_from sep (c # cur) cs)"

definition split :: "string \<Rightarrow> char \<Rightarrow> string list" where
  "split s sep = split_from sep [] s"

definition isdigit :: "char \<Rightarrow> bool" where
  "isdigit c \<longleftrightarrow> 48 \<le> (of_char c :: nat) \<and> (of_char c :: nat) \<le> 57"

definition int_of_digits :: "string \<Rightarrow> nat" where
  "int_of_digits s = foldl (\<lambda>acc c. 10 * acc + ((of_char c :: nat) - 48)) 0 s"

definition parse_octet :: "string \<Rightarrow> error + nat" where
  "parse_octet octet_str =
     (if octet_str = [] then Inl ValueError
      else if \<not> list_all isdigit octet_str then Inl ValueError
      else if length octet_str > 3 then Inl ValueError
      else if octet_str \<noteq> ''0'' \<and> hd octet_str = CHR ''0'' then Inl ValueError
      else (let octet_int = int_of_digits octet_str in
            if octet_int > 255 then Inl ValueError else Inr octet_int))"

text \<open>\<^verbatim>\<open>int.from_bytes(map(_parse_octet, octets), 'big')\<close>, stopping at the first bad octet.\<close>

fun from_octets :: "nat \<Rightarrow> string list \<Rightarrow> error + nat" where
  "from_octets acc [] = Inr acc"
| "from_octets acc (octet # octets) =
     (case parse_octet octet of
        Inl e \<Rightarrow> Inl AddressValueError
      | Inr b \<Rightarrow> from_octets (256 * acc + b) octets)"

definition IPv4Address_of_str :: "string \<Rightarrow> error + IPv4Address" where
  "IPv4Address_of_str ip_str =
     (if CHR ''/'' \<in> set ip_str then Inl AddressValueError
      else if ip_str = [] then Inl AddressValueError
      else (let octets = split ip_str (CHR ''.'') in
            if length octets \<noteq> 4 then Inl AddressValueError
            else from_octets 0 octets))"

text \<open>
  The comprehension \<^verbatim>\<open>[ipaddress.IPv4Address(ip) for ip in xs]\<close>: the first entry that does
  not convert raises.
\<close>

fun to_addresses :: "string list \<Rightarrow> error + IPv4Address list" where
  "to_addresses [] = Inr []"
| "to_addresses (ip # rest) =
     (case IPv4Address_of_str ip of
        Inl e \<Rightarrow> Inl e
      | Inr a \<Rightarrow> (case to_addresses rest of Inl e \<Rightarrow> Inl e | Inr as \<Rightarrow> Inr (a # as)))"

definition generate_random_ips_from_list ::
    "string list \<Rightarrow> int \<Rightarrow> rng \<Rightarrow> (error + (IPv4Address list \<times> rng)) option" where
  "generate_random_ips_from_list ip_list cnt g =
     (if length ip_list = 0 then Some (Inr ([], g))
      else if cnt \<ge> int (length ip_list) then
        Some (case to_addresses ip_list of Inl e \<Rightarrow> Inl e | Inr ips \<Rightarrow> Inr (ips, g))
      else
        (case sample ip_list cnt g of
           None \<Rightarrow> None
         | Some (Inl e) \<Rightarrow> Some (Inl e)
         | Some (Inr (chosen_ips, g1)) \<Rightarrow>
             Some (case to_addresses chosen_ips of Inl e \<Rightarrow> Inl e | Inr ips \<Rightarrow> Inr (ips, g1))))"

text \<open>A flat pool of 22 entries, the smallest size sampled through the set of indices.\<close>

definition pool22 :: "string list" where
  "pool22 =
     [''10.0.0.0'', ''10.0.0.1'', ''10.0.0.2'', ''10.0.0.3'', ''10.0.0.4'', ''10.0.0.5'',
      ''10.0.0.6'', ''10.0.0.7'', ''10.0.0.8'', ''10.0.0.9'', ''10.0.0.10'', ''10.0.0.11'',
      ''10.0.0.12'', ''10.0.0.13'', ''10.0.0.14'', ''10.0.0.15'', ''10.0.0.16'', ''10.0.0.17'',
      ''10.0.0.18'', ''10.0.0.19'', ''10.0.0.20'', ''10.0.0.21'']"

text \<open>
  The relation between a drawn block and the address the loop appends for it: the offset
  from the network address is in \<open>[1, num_addresses - 2]\<close> for a block of more than two
  addresses and is zero otherwise.
\<close>

definition drawn :: "IPv4Network \<Rightarrow> IPv4Address \<Rightarrow> bool" where
  "drawn net ip \<longleftrightarrow>
     (if num_addresses net > 2
      then 1 \<le> int ip - int (network_address net) \<and>
           int ip - int (network_address net) \<le> num_addresses net - 2
      else ip = network_address net)"


text \<open>
  \<^verbatim>\<open>str(ip)\<close> of an \<^verbatim>\<open>IPv4Address\<close>: \<^verbatim>\<open>'.'.join(map(str, ip.to_bytes(4, 'big')))\<close>.
\<close>

definition digit_char :: "nat \<Rightarrow> char" where
  "digit_char d = ''0123456789'' ! d"

fun str_nat :: "nat \<Rightarrow> string" where
  "str_nat n = (if n < 10 then [digit_char n] else str_nat (n div 10) @ [digit_char (n mod 10)])"

declare str_nat.simps [simp del]

fun join :: "char \<Rightarrow> string list \<Rightarrow> string" where
  "join sep [] = []"
| "join sep [x] = x"
| "join sep (x # y # ys) = x @ sep # join sep (y # ys)"

definition to_bytes4 :: "nat \<Rightarrow> nat list" where
  "to_bytes4 a =
     [a div 256 div 256 div 256 mod 256, a div 256 div 256 mod 256, a div 256 mod 256, a mod 256]"

definition IPv4Address_str :: "IPv4Address \<Rightarrow> string" where
  "IPv4Address_str a = join (CHR ''.'') (map str_nat (to_bytes4 a))"

section \<open>\<^verbatim>\<open>test_ip\<close>\<close>

text \<open>
  What \<^verbatim>\<open>requests.get\<close> can do: return a response or raise. The exceptions are the classes
  of \<^verbatim>\<open>requests.exceptions\<close>; \<^verbatim>\<open>ConnectTimeout\<close> and \<^verbatim>\<open>ReadTimeout\<close> are the subclasses of
  \<^verbatim>\<open>Timeout\<close>, so \<^verbatim>\<open>except requests.exceptions.Timeout\<close> catches exactly these three. A
  response carries its status code and, when its body parses as JSON, the parsed value.
\<close>

datatype exception =
    Timeout | ConnectTimeout | ReadTimeout
  | ConnectionError | ProxyError | SSLError | HTTPError | TooManyRedirects
  | InvalidURL | ChunkedEncodingError | ContentDecodingError | JSONDecodeError
  | OtherException

fun isinstance_Timeout :: "exception \<Rightarrow> bool" where
  "isinstance_Timeout Timeout = True"
| "isinstance_Timeout ConnectTimeout = True"
| "isinstance_Timeout ReadTimeout = True"
| "isinstance_Timeout _ = False"

datatype json =
    JNull | JBool bool | JNumber int | JString string
  | JArray "json list" | JObject "(string \<times> json) list"

record Response =
  status_code :: nat
  json_body :: "json option"

datatype request_result = Returned Response | Raised exception

text \<open>
  The course of one HTTP exchange on the socket, as \<^verbatim>\<open>requests.get\<close> with a timeout sees it:
  the timeout bounds each wait on the socket, the connect, the wait for the status line and
  the headers, and every read of the body. An exchange ends in one of these ways.
\<close>

datatype transfer =
    Connect_timeout
  | Connect_refused
  | Headers_timeout
  | Headers_reset
  | Body_timeout
  | Body_reset
  | Body_undecodable
  | Too_many_redirects
  | Completed Response

text \<open>The exchanges in which a wait on the socket lasted for the whole timeout.\<close>

fun timed_out :: "transfer \<Rightarrow> bool" where
  "timed_out Connect_timeout = True"
| "timed_out Headers_timeout = True"
| "timed_out Body_timeout = True"
| "timed_out _ = False"

text \<open>
  What \<^verbatim>\<open>requests.get\<close> does for each of them. The adapter (\<^verbatim>\<open>HTTPAdapter.send\<close>) turns a
  timeout of the connect into \<^verbatim>\<open>ConnectTimeout\<close>, a refused connection and a reset into
  \<^verbatim>\<open>ConnectionError\<close>, and a timeout of the wait for the headers into \<^verbatim>\<open>ReadTimeout\<close>. The
  body is read after that, by \<^verbatim>\<open>Response.iter_content\<close>, which raises
  \<^verbatim>\<open>ChunkedEncodingError\<close> for a broken connection, \<^verbatim>\<open>ContentDecodingError\<close> for a body that
  does not decode, and, for a read that times out, \<^verbatim>\<open>ConnectionError\<close>:
  \<^verbatim>\<open>except ReadTimeoutError as e: raise ConnectionError(e)\<close>. A chain of more than thirty
  redirections raises \<^verbatim>\<open>TooManyRedirects\<close>.
\<close>

fun requests_get_outcome :: "transfer \<Rightarrow> request_result" where
  "requests_get_outcome Connect_timeout = Raised ConnectTimeout"
| "requests_get_outcome Connect_refused = Raised ConnectionError"
| "requests_get_outcome Headers_timeout = Raised ReadTimeout"
| "requests_get_outcome Headers_reset = Raised ConnectionError"
| "requests_get_outcome Body_timeout = Raised ConnectionError"
| "requests_get_outcome Body_reset = Raised ChunkedEncodingError"
| "requests_get_outcome Body_undecodable = Raised ContentDecodingError"
| "requests_get_outcome Too_many_redirects = Raised TooManyRedirects"
| "requests_get_outcome (Completed response) = Returned response"

text \<open>
  The world of one probe: the network, as the function from the URL and the timeout to the
  course of the exchange, and the two readings of \<^verbatim>\<open>time.monotonic()\<close>, before the request
  and after it has terminated. Clock readings are real numbers.
\<close>

record probe_env =
  network :: "string \<Rightarrow> real \<Rightarrow> transfer"
  monotonic_start :: real
  monotonic_end :: real

definition get :: "probe_env \<Rightarrow> string \<Rightarrow> real \<Rightarrow> request_result" where
  "get env url timeout = requests_get_outcome (network env url timeout)"

definition test_ip :: "IPv4Address \<Rightarrow> real \<Rightarrow> probe_env \<Rightarrow> (string \<times> real) option" where
  "test_ip ip timeout env =
     (let start = monotonic_start env in
      case get env (''http://'' @ IPv4Address_str ip) timeout of
        Raised e \<Rightarrow>
          if isinstance_Timeout e then None
          else (let elapsed = monotonic_end env - start in Some (IPv4Address_str ip, elapsed))
      | Returned response \<Rightarrow>
          (let elapsed = monotonic_end env - start in Some (IPv4Address_str ip, elapsed)))"

section \<open>\<^verbatim>\<open>check_ips\<close>\<close>

text \<open>
  The futures of the batch are numbered in submission order; \<^verbatim>\<open>futures_map[future]\<close> of
  future \<open>i\<close> is \<open>ips ! i\<close>. A future is pending in the executor's queue, running on a
  worker, or finished with the value \<^verbatim>\<open>test_ip\<close> returned.
\<close>

datatype future_state = PENDING | RUNNING | FINISHED "(string \<times> real) option"

text \<open>The progress bar: its total, its counter and the postfix last set.\<close>

datatype postfix = No_postfix | Postfix_time string real | Postfix_timeout IPv4Address

record tqdm =
  pbar_total :: nat
  pbar_n :: nat
  pbar_postfix :: postfix

text \<open>
  The state of a call after the submissions: the futures, the futures that
  \<^verbatim>\<open>as_completed\<close> has already handed to the loop (in that order), the list \<^verbatim>\<open>responsive\<close>
  and the bar.
\<close>

record scheduler =
  futures :: "future_state list"
  yielded :: "nat list"
  responsive :: "(string \<times> real) list"
  pbar :: tqdm

definition submitted :: "IPv4Address list \<Rightarrow> scheduler" where
  "submitted ips =
     \<lparr>futures = replicate (length ips) PENDING, yielded = [], responsive = [],
      pbar = \<lparr>pbar_total = length ips, pbar_n = 0, pbar_postfix = No_postfix\<rparr>\<rparr>"

text \<open>The body of the loop over \<^verbatim>\<open>as_completed\<close> (lines 98 to 106) for future \<open>i\<close>.\<close>

definition loop_body :: "IPv4Address list \<Rightarrow> nat \<Rightarrow> (string \<times> real) option \<Rightarrow> scheduler \<Rightarrow> scheduler" where
  "loop_body ips i result s =
     (let ip = ips ! i in
      case result of
        Some (ip_str, elapsed) \<Rightarrow>
          s\<lparr>responsive := responsive s @ [(ip_str, elapsed)],
            pbar := (pbar s)\<lparr>pbar_postfix := Postfix_time ip_str elapsed,
                             pbar_n := pbar_n (pbar s) + 1\<rparr>\<rparr>
      | None \<Rightarrow>
          s\<lparr>pbar := (pbar s)\<lparr>pbar_postfix := Postfix_timeout ip,
                             pbar_n := pbar_n (pbar s) + 1\<rparr>\<rparr>)"

text \<open>
  What can happen during the call. A worker takes the oldest pending future from the queue
  while fewer than \<open>workers\<close> futures are running; a running probe terminates, and its
  future holds what \<^verbatim>\<open>test_ip\<close> returned in the world of that probe; \<^verbatim>\<open>as_completed\<close> hands
  a finished future that it has not yet handed out to the loop, which runs its body. An
  event that is not enabled in a state has no successor.
\<close>

datatype event = Start nat | Finish nat | Yield nat

definition running_count :: "scheduler \<Rightarrow> nat" where
  "running_count s = length (filter (\<lambda>f. f = RUNNING) (futures s))"

fun step :: "IPv4Address list \<Rightarrow> int \<Rightarrow> real \<Rightarrow> (nat \<Rightarrow> probe_env) \<Rightarrow> event \<Rightarrow> scheduler
    \<Rightarrow> scheduler option" where
  "step ips workers timeout world (Start i) s =
     (if i < length (futures s) \<and> futures s ! i = PENDING \<and>
         list_all (\<lambda>f. f \<noteq> PENDING) (take i (futures s)) \<and>
         int (running_count s) < workers
      then Some (s\<lparr>futures := (futures s)[i := RUNNING]\<rparr>)
      else None)"
| "step ips workers timeout world (Finish i) s =
     (if i < length (futures s) \<and> futures s ! i = RUNNING
      then Some (s\<lparr>futures := (futures s)[i := FINISHED (test_ip (ips ! i) timeout (world i))]\<rparr>)
      else None)"
| "step ips workers timeout world (Yield i) s =
     (if i < length (futures s) \<and> i \<notin> set (yielded s)
      then (case futures s ! i of
              FINISHED result \<Rightarrow> Some (loop_body ips i result (s\<lparr>yielded := yielded s @ [i]\<rparr>))
            | _ \<Rightarrow> None)
      else None)"

fun run :: "IPv4Address list \<Rightarrow> int \<Rightarrow> real \<Rightarrow> (nat \<Rightarrow> probe_env) \<Rightarrow> event list \<Rightarrow> scheduler
    \<Rightarrow> scheduler option" where
  "run ips workers timeout world [] s = Some s"
| "run ips workers timeout world (e # es) s =
     (case step ips workers timeout world e s of
        None \<Rightarrow> None
      | Some s' \<Rightarrow> run ips workers timeout world es s')"

text \<open>
  The loop ends, and the call returns \<^verbatim>\<open>responsive\<close>, when \<^verbatim>\<open>as_completed\<close> has handed out
  every future.
\<close>

definition exhausted :: "scheduler \<Rightarrow> bool" where
  "exhausted s \<longleftrightarrow> length (yielded s) = length (futures s)"

text \<open>
  \<^verbatim>\<open>check_ips\<close> under a sequence of events: \<^verbatim>\<open>ThreadPoolExecutor\<close> raises \<^verbatim>\<open>ValueError\<close> for a
  worker count that is not positive; otherwise the result is \<open>Some\<close> of the returned list
  when the events are a complete course of the call, and \<open>None\<close> when they are not (an event
  is not enabled, or futures are still outstanding after the last one).
\<close>

definition check_ips :: "IPv4Address list \<Rightarrow> int \<Rightarrow> real \<Rightarrow> (nat \<Rightarrow> probe_env) \<Rightarrow> event list
    \<Rightarrow> error + (string \<times> real) list option" where
  "check_ips ips workers timeout world events =
     (if workers \<le> 0 then Inl ValueError
      else (case run ips workers timeout world events (submitted ips) of
              None \<Rightarrow> Inr None
            | Some s \<Rightarrow> if exhausted s then Inr (Some (responsive s)) else Inr None))"

text \<open>
  One complete course for every batch: each probe is started, terminates and is handed to
  the loop before the next one starts.
\<close>

definition one_by_one :: "nat \<Rightarrow> nat \<Rightarrow> event list" where
  "one_by_one i k = concat (map (\<lambda>j. [Start j, Finish j, Yield j]) [i..<i + k])"

text \<open>
  The outcome of probe \<open>i\<close> of a batch, and what holds of the state throughout a call: the
  bar's total is the number of submitted addresses, its counter is the number of futures
  handed to the loop, no future is handed out twice, a finished future holds the outcome
  of its probe, only finished futures are handed out, and \<^verbatim>\<open>responsive\<close> lists the outcomes
  that are not timeouts, in the order of handing out.
\<close>

definition outcome :: "IPv4Address list \<Rightarrow> real \<Rightarrow> (nat \<Rightarrow> probe_env) \<Rightarrow> nat \<Rightarrow> (string \<times> real) option" where
  "outcome ips timeout world i = test_ip (ips ! i) timeout (world i)"

definition consistent :: "IPv4Address list \<Rightarrow> real \<Rightarrow> (nat \<Rightarrow> probe_env) \<Rightarrow> scheduler \<Rightarrow> bool" where
  "consistent ips timeout world s \<longleftrightarrow>
     length (futures s) = length ips \<and>
     pbar_total (pbar s) = length ips \<and>
     pbar_n (pbar s) = length (yielded s) \<and>
     distinct (yielded s) \<and>
     list_all (\<lambda>i. i < length ips \<and> futures s ! i = FINISHED (outcome ips timeout world i)) (yielded s) \<and>
     list_all (\<lambda>i. futures s ! i \<in> {PENDING, RUNNING, FINISHED (outcome ips timeout world i)})
       [0..<length ips] \<and>
     responsive s = List.map_filter (outcome ips timeout world) (yielded s)"

fun is_Yield :: "event \<Rightarrow> bool" where
  "is_Yield (Yield i) = True"
| "is_Yield _ = False"

text \<open>
  The state after the first \<open>k\<close> probes have run one by one: their futures are finished
  and handed out in submission order, the others are pending.
\<close>

definition settled :: "IPv4Address list \<Rightarrow> real \<Rightarrow> (nat \<Rightarrow> probe_env) \<Rightarrow> nat \<Rightarrow> scheduler \<Rightarrow> bool" where
  "settled ips timeout world k s \<longleftrightarrow>
     futures s = map (\<lambda>i. FINISHED (outcome ips timeout world i)) [0..<k]
                   @ replicate (length ips - k) PENDING \<and>
     yielded s = [0..<k]"


text \<open>
  A world for a batch of two probes: the first times out while connecting, the second is
  answered with status 404 after a quarter of a second.
\<close>

definition world2 :: "nat \<Rightarrow> probe_env" where
  "world2 i =
     (if i = 0 then \<lparr>network = (\<lambda>url t. Connect_timeout), monotonic_start = 0, monotonic_end = 1\<rparr>
      else \<lparr>network = (\<lambda>url t. Completed \<lparr>status_code = 404, json_body = None\<rparr>),
            monotonic_start = 0, monotonic_end = 1 / 4\<rparr>)"

section \<open>\<^verbatim>\<open>fetch_bunny_ips\<close> and its caller\<close>

text \<open>
  \<^verbatim>\<open>response.raise_for_status()\<close> raises \<^verbatim>\<open>HTTPError\<close> for a status from 400 to 599;
  \<^verbatim>\<open>response.json()\<close> raises \<^verbatim>\<open>JSONDecodeError\<close> when the body is not JSON and otherwise returns
  the decoded value, whatever its shape.
\<close>

definition raise_for_status :: "Response \<Rightarrow> exception option" where
  "raise_for_status response =
     (if 400 \<le> status_code response \<and> status_code response < 600 then Some HTTPError else None)"

definition response_json :: "Response \<Rightarrow> exception + json" where
  "response_json response =
     (case json_body response of None \<Rightarrow> Inl JSONDecodeError | Some v \<Rightarrow> Inr v)"

text \<open>What the program prints and writes, in order.\<close>

datatype effect =
    Print string
  | Print_fetch_error exception
  | Print_no_response real
  | Write_file string string

text \<open>
  \<^verbatim>\<open>fetch_bunny_ips\<close> returns a Python value and what it printed. Every exception of the
  \<^verbatim>\<open>try\<close> block is an \<^verbatim>\<open>Exception\<close>, so the handler catches each of them, prints it and
  returns \<^verbatim>\<open>[]\<close>.
\<close>

definition fetch_bunny_ips :: "(string \<Rightarrow> real \<Rightarrow> request_result) \<Rightarrow> json \<times> effect list" where
  "fetch_bunny_ips requests_get =
     (case requests_get ''https://bunnycdn.com/api/system/edgeserverlist'' 10 of
        Raised e \<Rightarrow> (JArray [], [Print_fetch_error e])
      | Returned response \<Rightarrow>
          (case raise_for_status response of
             Some e \<Rightarrow> (JArray [], [Print_fetch_error e])
           | None \<Rightarrow>
               (case response_json response of
                  Inl e \<Rightarrow> (JArray [], [Print_fetch_error e])
                | Inr v \<Rightarrow> (v, []))))"

text \<open>Truth value and \<^verbatim>\<open>len\<close> of a decoded JSON value.\<close>

fun truthy :: "json \<Rightarrow> bool" where
  "truthy JNull = False"
| "truthy (JBool b) = b"
| "truthy (JNumber n) = (n \<noteq> 0)"
| "truthy (JString s) = (s \<noteq> [])"
| "truthy (JArray xs) = (xs \<noteq> [])"
| "truthy (JObject kvs) = (kvs \<noteq> [])"

fun len :: "json \<Rightarrow> error + nat" where
  "len (JString s) = Inr (length s)"
| "len (JArray xs) = Inr (length xs)"
| "len (JObject kvs) = Inr (length kvs)"
| "len _ = Inl TypeError"

text \<open>
  The branch of \<^verbatim>\<open>main\<close> for the choice \<^verbatim>\<open>bunny\<close> (lines 115 to 123): the process exits with
  status 1 when the fetched value is falsy, and goes on with it as \<^verbatim>\<open>ip_list\<close> otherwise.
\<close>

datatype 'a stage = Exit nat | Continue 'a

definition main_bunny :: "(string \<Rightarrow> real \<Rightarrow> request_result) \<Rightarrow> error + (json stage \<times> effect list)" where
  "main_bunny requests_get =
     (case fetch_bunny_ips requests_get of (bunny_ips, printed) \<Rightarrow>
        (let out = Print ''Fetching Bunny CDN IP addresses...'' # printed in
         if \<not> truthy bunny_ips
         then Inr (Exit 1, out @ [Print ''Failed to fetch Bunny CDN IPs. Exiting.''])
         else (case len bunny_ips of
                 Inl e \<Rightarrow> Inl e
               | Inr n \<Rightarrow>
                   Inr (Continue bunny_ips,
                        out @ [Print (''Fetched '' @ str_nat n @ '' Bunny CDN IP addresses.'')]))))"

text \<open>
  The count prompt of \<^verbatim>\<open>main\<close> (lines 129 to 135), from the result of \<^verbatim>\<open>int(input(...))\<close>:
  \<open>None\<close> when the conversion raised \<^verbatim>\<open>ValueError\<close>. A count that is not positive raises the
  same exception, and the handler prints and exits with status 1.
\<close>

definition main_count :: "int option \<Rightarrow> int stage \<times> effect list" where
  "main_count parsed =
     (case parsed of
        None \<Rightarrow> (Exit 1, [Print ''Please enter a positive integer for count.''])
      | Some cnt \<Rightarrow>
          if cnt \<le> 0 then (Exit 1, [Print ''Please enter a positive integer for count.''])
          else (Continue cnt, []))"

section \<open>The report at the end of \<^verbatim>\<open>main\<close>\<close>

text \<open>
  \<^verbatim>\<open>datetime.now().strftime("%Y%m%d_%H%M%S")\<close>, which formats through the C library: the
  month, the day, the hour, the minute and the second on two digits, zero-padded, and the
  year in decimal without padding, so on four digits from the year 1000 on.
\<close>

record datetime =
  year :: nat
  month :: nat
  day :: nat
  hour :: nat
  minute :: nat
  second :: nat

definition zfill :: "nat \<Rightarrow> string \<Rightarrow> string" where
  "zfill width s = replicate (width - length s) (CHR ''0'') @ s"

definition strftime :: "datetime \<Rightarrow> string" where
  "strftime d =
     str_nat (year d) @ zfill 2 (str_nat (month d)) @ zfill 2 (str_nat (day d)) @ ''_'' @
     zfill 2 (str_nat (hour d)) @ zfill 2 (str_nat (minute d)) @ zfill 2 (str_nat (second d))"

text \<open>
  \<^verbatim>\<open>f"{elapsed:.2f}"\<close>: the value rounded to a multiple of one hundredth, a tie going to the
  even neighbour, printed with its sign, its integer part, a dot and two digits.
\<close>

definition round_half_even :: "real \<Rightarrow> int" where
  "round_half_even x =
     (let f = \<lfloor>x\<rfloor>; d = x - of_int f in
      if d < 1 / 2 then f else if d > 1 / 2 then f + 1 else if even f then f else f + 1)"

definition format_2f :: "real \<Rightarrow> string" where
  "format_2f x =
     (let q = nat (round_half_even (\<bar>x\<bar> * 100)) in
      (if x < 0 then ''-'' else []) @ str_nat (q div 100) @ ''.'' @ zfill 2 (str_nat (q mod 100)))"

text \<open>
  \<^verbatim>\<open>csv.writer(csvfile).writerow(row)\<close> in the default dialect: a field that holds a comma,
  a double quote, a carriage return or a line feed is quoted, its double quotes doubled; the
  fields are joined by commas and the row ends with carriage return and line feed.
\<close>

definition quote_field :: "string \<Rightarrow> string" where
  "quote_field field =
     (if list_ex (\<lambda>c. c \<in> {CHR '','', CHR 0x22, CHR 0x0D, CHR 0x0A}) field
      then CHR 0x22 # concat (map (\<lambda>c. if c = CHR 0x22 then [c, c] else [c]) field) @ [CHR 0x22]
      else field)"

definition writerow :: "string list \<Rightarrow> string" where
  "writerow row = join (CHR '','') (map quote_field row) @ [CHR 0x0D, CHR 0x0A]"

text \<open>Lines 170 to 186 of \<^verbatim>\<open>main\<close>.\<close>

definition main_report :: "string \<Rightarrow> datetime \<Rightarrow> real \<Rightarrow> (string \<times> real) list \<Rightarrow> effect list" where
  "main_report choice now timeout responsive' =
     (let now_str = strftime now;
          filename = ''responsive_ips_'' @ choice @ ''_'' @ now_str @ ''.csv'' in
      if responsive' \<noteq> [] then
        [Print (CHR 0x0A # ''Responsive IPs and timings:'')] @
        map (\<lambda>(ip, elapsed). Print (ip @ '', '' @ format_2f elapsed @ ''s'')) responsive' @
        [Write_file filename
           (writerow [''ip'', ''response_time_s''] @
            concat (map (\<lambda>(ip, elapsed). writerow [ip, format_2f elapsed]) responsive')),
         Print (CHR 0x0A # ''Saved responsive IPs to '' @ filename)]
      else [Print_no_response timeout])"

text \<open>A string of at least one digit, a dot and two digits.\<close>

definition two_decimals :: "string \<Rightarrow> bool" where
  "two_decimals s \<longleftrightarrow>
     4 \<le> length s \<and> list_all isdigit (take (length s - 3) s) \<and> s ! (length s - 3) = CHR ''.'' \<and>
     isdigit (s ! (length s - 2)) \<and> isdigit (s ! (length s - 1))"

text \<open>
  The number that a string of digits, a dot and two digits denotes: the digits before the
  dot, plus the two digits after it as hundredths.
\<close>

definition decimal_value :: "string \<Rightarrow> real" where
  "decimal_value s =
     real (int_of_digits (take (length s - 3) s)) + real (int_of_digits (drop (length s - 2) s)) / 100"

text \<open>The fields of a \<^verbatim>\<open>datetime\<close> object are in these ranges.\<close>

definition valid_datetime :: "datetime \<Rightarrow> bool" where
  "valid_datetime d \<longleftrightarrow>
     1 \<le> year d \<and> year d \<le> 9999 \<and> 1 \<le> month d \<and> month d \<le> 12 \<and> 1 \<le> day d \<and> day d \<le> 31 \<and>
     hour d < 24 \<and> minute d < 60 \<and> second d < 60"

fun is_Write_file :: "effect \<Rightarrow> bool" where
  "is_Write_file (Write_file name content) = True"
| "is_Write_file _ = False"

section \<open>Properties of the samplers\<close>

subsection \<open>Networks, bisection and weighted choice\<close>

lemma or_nat_ge: "(a::nat) \<le> a OR b"
proof -
  have "int a \<le> int a OR int b" by (rule or_greater_eq) simp
  then have "int a \<le> int (a OR b)" by (simp add: of_nat_or_eq)
  then show ?thesis by simp
qed

lemma or_nat_upper: "(a::nat) < 2 ^ n \<Longrightarrow> b < 2 ^ n \<Longrightarrow> a OR b < 2 ^ n"
proof -
  assume a: "a < 2 ^ n" and b: "b < 2 ^ n"
  have ia: "int a < 2 ^ n" using a of_nat_less_iff [of a "2 ^ n", where ?'a = int] by simp
  have ib: "int b < 2 ^ n" using b of_nat_less_iff [of b "2 ^ n", where ?'a = int] by simp
  have "int a OR int b < 2 ^ n"
    using ia ib by (intro OR_upper) simp_all
  then have "int (a OR b) < int (2 ^ n)" by (simp add: of_nat_or_eq)
  then show ?thesis by (rule iffD1 [OF of_nat_less_iff])
qed

lemma broadcast_ge: "network_address net \<le> broadcast_address net"
  by (simp add: broadcast_address_def or_nat_ge)

lemma num_addresses_pos: "1 \<le> num_addresses net"
  using broadcast_ge [of net] by (simp add: num_addresses_def)

lemma broadcast_eq: "int (broadcast_address net) = int (network_address net) + num_addresses net - 1"
  by (simp add: num_addresses_def)

lemma hostmask_bound: "hostmask net < 2 ^ 32"
proof -
  have "(2::nat) ^ (32 - prefixlen net) \<le> 2 ^ 32" by (rule power_increasing) simp_all
  then show ?thesis by (simp add: hostmask_def)
qed

lemma broadcast_upper: "network_address net < 2 ^ 32 \<Longrightarrow> broadcast_address net < 2 ^ 32"
  unfolding broadcast_address_def by (rule or_nat_upper) (assumption, rule hostmask_bound)

lemma bisect_right_bounds: "lo \<le> hi \<Longrightarrow> lo \<le> bisect_right a x lo hi \<and> bisect_right a x lo hi \<le> hi"
proof (induction a x lo hi rule: bisect_right.induct)
  case (1 a x lo hi)
  show ?case
  proof (cases "lo < hi")
    case True
    let ?mid = "(lo + hi) div 2"
    have m: "lo \<le> ?mid" "?mid < hi" using True by auto
    show ?thesis
    proof (cases "x < a ! ?mid")
      case True
      with 1(1)[OF \<open>lo < hi\<close> refl True] m \<open>lo < hi\<close> show ?thesis
        by (subst (1 2) bisect_right.simps) (simp add: Let_def)
    next
      case False
      with 1(2)[OF \<open>lo < hi\<close> refl False] m \<open>lo < hi\<close> show ?thesis
        by (subst (1 2) bisect_right.simps) (simp add: Let_def)
    qed
  next
    case False
    then show ?thesis using 1(3) by (subst (1 2) bisect_right.simps) simp
  qed
qed

lemma length_accumulate_from: "length (accumulate_from acc ws) = length ws"
  by (induction ws arbitrary: acc) simp_all

lemma last_accumulate_from: "ws \<noteq> [] \<Longrightarrow> last (accumulate_from acc ws) = acc + sum_list ws"
proof (induction ws arbitrary: acc)
  case Nil
  then show ?case by simp
next
  case (Cons w ws)
  show ?case
  proof (cases ws)
    case Nil
    then show ?thesis by simp
  next
    case (Cons v vs)
    then have "accumulate_from (acc + w) ws \<noteq> []" by simp
    with Cons.IH [of "acc + w"] Cons show ?thesis by simp
  qed
qed

lemma sum_list_weights_pos: "ws \<noteq> [] \<Longrightarrow> \<forall>w\<in>set ws. (1::int) \<le> w \<Longrightarrow> 0 < sum_list ws"
proof (induction ws)
  case Nil
  then show ?case by simp
next
  case (Cons w ws)
  then show ?case by (cases ws) auto
qed

lemma draw_choices_length: "length (fst (draw_choices p cw t hi k g)) = k"
proof (induction k arbitrary: g)
  case 0
  then show ?case by simp
next
  case (Suc k)
  obtain r g1 where r: "randbelow (nat t) g = (r, g1)" by (cases "randbelow (nat t) g")
  obtain rest g2 where d: "draw_choices p cw t hi k g1 = (rest, g2)"
    by (cases "draw_choices p cw t hi k g1")
  from Suc.IH [of g1] d r show ?case by simp
qed

lemma draw_choices_subset: "hi < length p \<Longrightarrow> set (fst (draw_choices p cw t hi k g)) \<subseteq> set p"
proof (induction k arbitrary: g)
  case 0
  then show ?case by simp
next
  case (Suc k)
  obtain r g1 where r: "randbelow (nat t) g = (r, g1)" by (cases "randbelow (nat t) g")
  obtain rest g2 where d: "draw_choices p cw t hi k g1 = (rest, g2)"
    by (cases "draw_choices p cw t hi k g1")
  have "bisect_right cw (int r) 0 hi \<le> hi" using bisect_right_bounds [of 0 hi cw "int r"] by simp
  then have "p ! bisect_right cw (int r) 0 hi \<in> set p" using Suc.prems by simp
  moreover have "set rest \<subseteq> set p" using Suc.IH [OF Suc.prems, of g1] d by simp
  ultimately show ?case using r d by simp
qed

lemma choices_empty: "choices [] [] k g = Inl IndexError"
  by (simp add: choices_def accumulate_def)

lemma choices_ok:
  assumes "population \<noteq> []" and "length weights = length population"
    and "\<forall>w\<in>set weights. 1 \<le> w"
  shows "\<exists>chosen g'. choices population weights k g = Inr (chosen, g') \<and>
           length chosen = nat k \<and> set chosen \<subseteq> set population"
proof -
  let ?cw = "accumulate weights"
  have w: "weights \<noteq> []" using assms(1,2) by auto
  have len: "length ?cw = length population"
    by (simp add: accumulate_def length_accumulate_from assms(2))
  then have ne: "?cw \<noteq> []" using assms(1) by auto
  have tot: "0 < last ?cw"
    using last_accumulate_from [OF w, of 0] sum_list_weights_pos [OF w assms(3)]
    by (simp add: accumulate_def)
  let ?d = "draw_choices population ?cw (last ?cw) (length population - 1) (nat k) g"
  have eq: "choices population weights k g = Inr ?d"
    using len ne tot by (simp add: choices_def Let_def)
  have hi: "length population - 1 < length population" using assms(1) by simp
  have "length (fst ?d) = nat k" by (rule draw_choices_length)
  moreover have "set (fst ?d) \<subseteq> set population" by (rule draw_choices_subset [OF hi])
  ultimately show ?thesis using eq by (cases ?d) auto
qed

lemma choices_Inr_length:
  "choices population weights k g = Inr (chosen, g') \<Longrightarrow> length chosen = nat k"
  using draw_choices_length [of population "accumulate weights" "last (accumulate weights)" "length population - 1" "nat k" g]
  by (auto simp: choices_def Let_def split: if_splits)

lemma choices_Inr_subset:
  assumes "choices population weights k g = Inr (chosen, g')"
  shows "set chosen \<subseteq> set population"
proof -
  from assms have ne: "accumulate weights \<noteq> []" and len: "length (accumulate weights) = length population"
    and d: "draw_choices population (accumulate weights) (last (accumulate weights)) (length population - 1) (nat k) g = (chosen, g')"
    by (auto simp: choices_def Let_def split: if_splits)
  from ne len have "length population - 1 < length population" by (cases population) auto
  from draw_choices_subset [OF this, of "accumulate weights" "last (accumulate weights)" "nat k" g] d
  show ?thesis by simp
qed

lemma pick_offset_total:
  "\<exists>offset g'. pick_offset net g = Inr (offset, g') \<and>
     (if num_addresses net > 2 then 1 \<le> offset \<and> offset \<le> num_addresses net - 2 else offset = 0)"
proof (cases "num_addresses net > 2")
  case True
  obtain r g1 where r: "next_raw g = (r, g1)" by (cases "next_raw g")
  have "int (r mod nat (num_addresses net - 2)) < num_addresses net - 2"
    using True by (simp add: zmod_int)
  then show ?thesis using True r by (simp add: pick_offset_def randint_def randbelow_def)
next
  case False
  then show ?thesis by (simp add: pick_offset_def)
qed

subsection \<open>The loop over the drawn blocks\<close>

lemma address_add_Inr: "address_add a off = Inr ip \<Longrightarrow> int ip = int a + off"
  by (auto simp: address_add_def IPv4Address_of_int_def split: if_splits)

lemma address_add_ok: "0 \<le> int a + off \<Longrightarrow> int a + off < 2 ^ 32 \<Longrightarrow> \<exists>ip. address_add a off = Inr ip"
  by (simp add: address_add_def IPv4Address_of_int_def ALL_ONES_def)

lemma ips_loop_drawn:
  "ips_loop nets acc g = Inr (res, g') \<Longrightarrow> \<exists>new. res = acc @ new \<and> list_all2 drawn nets new"
proof (induction nets arbitrary: acc g)
  case Nil
  then show ?case by simp
next
  case (Cons net nets)
  obtain offset g1 where po: "pick_offset net g = Inr (offset, g1)"
    and rng: "if num_addresses net > 2 then 1 \<le> offset \<and> offset \<le> num_addresses net - 2 else offset = 0"
    using pick_offset_total [of net g] by blast
  from Cons.prems po obtain ip where add: "address_add (network_address net) offset = Inr ip"
    and rest: "ips_loop nets (acc @ [ip]) g1 = Inr (res, g')"
    by (auto split: sum.splits)
  from Cons.IH [OF rest] obtain new where new: "res = (acc @ [ip]) @ new" "list_all2 drawn nets new"
    by blast
  have "drawn net ip" using address_add_Inr [OF add] rng by (auto simp: drawn_def)
  with new show ?case by (intro exI [of _ "ip # new"]) simp
qed

lemma ips_loop_total:
  "\<forall>net\<in>set nets. network_address net < 2 ^ 32 \<Longrightarrow> \<exists>res g'. ips_loop nets acc g = Inr (res, g')"
proof (induction nets arbitrary: acc g)
  case Nil
  then show ?case by simp
next
  case (Cons net nets)
  obtain offset g1 where po: "pick_offset net g = Inr (offset, g1)"
    and rng: "if num_addresses net > 2 then 1 \<le> offset \<and> offset \<le> num_addresses net - 2 else offset = 0"
    using pick_offset_total [of net g] by blast
  have lo: "0 \<le> int (network_address net) + offset" using rng by (auto split: if_splits)
  have "network_address net < 2 ^ 32" using Cons.prems by simp
  then have "broadcast_address net < 2 ^ 32" by (rule broadcast_upper)
  then have b: "int (broadcast_address net) < 2 ^ 32"
    using of_nat_less_iff [of "broadcast_address net" "2 ^ 32", where ?'a = int] by simp
  have "int (network_address net) + offset \<le> int (broadcast_address net)"
    using rng broadcast_eq [of net] num_addresses_pos [of net] by (auto split: if_splits)
  with b have hi: "int (network_address net) + offset < 2 ^ 32" by linarith
  from address_add_ok [OF lo hi] obtain ip where add: "address_add (network_address net) offset = Inr ip" ..
  from Cons.IH [of "acc @ [ip]" g1] Cons.prems obtain res g' where "ips_loop nets (acc @ [ip]) g1 = Inr (res, g')"
    by auto
  with po add show ?case by simp
qed

lemma drawn_host_range:
  assumes "drawn net ip"
  shows "(num_addresses net > 2 \<longrightarrow> network_address net < ip \<and> ip < broadcast_address net) \<and>
         (num_addresses net \<le> 2 \<longrightarrow> ip = network_address net)"
  using assms broadcast_eq [of net] by (auto simp: drawn_def split: if_splits)

lemma drawn_contains: "drawn net ip \<Longrightarrow> contains net ip"
  using broadcast_eq [of net] broadcast_ge [of net]
  by (auto simp: drawn_def contains_def split: if_splits)

lemma generate_random_ips_drawn:
  assumes "choices networks (map num_addresses networks) cnt g = Inr (chosen_nets, g1)"
    and "generate_random_ips networks cnt g = Inr (ips, g2)"
  shows "list_all2 drawn chosen_nets ips"
proof -
  from assms have "ips_loop chosen_nets [] g1 = Inr (ips, g2)"
    by (simp add: generate_random_ips_def)
  from ips_loop_drawn [OF this] show ?thesis by simp
qed

subsection \<open>A concrete run of the CIDR sampler\<close>

text \<open>
  The pool \<^verbatim>\<open>10.0.0.0/31\<close>, \<^verbatim>\<open>192.168.0.0/24\<close> with the generator whose raw draws are
  \<open>0, 1, 2, 3, \<dots>\<close>: the three weighted draws pick the first block twice and the second
  block once, and the fourth raw draw gives the offset \<open>1 + 3\<close> in the second block.
\<close>

lemma num_addresses_slash31: "num_addresses \<lparr>network_address = 167772160, prefixlen = 31\<rparr> = 2"
  by (simp add: num_addresses_def broadcast_address_def hostmask_def)

lemma num_addresses_slash24: "num_addresses \<lparr>network_address = 3232235520, prefixlen = 24\<rparr> = 256"
  by (simp add: num_addresses_def broadcast_address_def hostmask_def)

lemma num_addresses_slash32: "num_addresses \<lparr>network_address = 16909060, prefixlen = 32\<rparr> = 1"
  by (simp add: num_addresses_def broadcast_address_def hostmask_def)

lemma choices_run:
  "choices [\<lparr>network_address = 167772160, prefixlen = 31\<rparr>,
            \<lparr>network_address = 3232235520, prefixlen = 24\<rparr>]
     (map num_addresses [\<lparr>network_address = 167772160, prefixlen = 31\<rparr>,
                         \<lparr>network_address = 3232235520, prefixlen = 24\<rparr>]) 3 (\<lambda>i. i)
   = Inr ([\<lparr>network_address = 167772160, prefixlen = 31\<rparr>,
           \<lparr>network_address = 167772160, prefixlen = 31\<rparr>,
           \<lparr>network_address = 3232235520, prefixlen = 24\<rparr>], \<lambda>i. Suc (Suc (Suc i)))"
  by (simp add: num_addresses_slash31 num_addresses_slash24 choices_def accumulate_def
      numeral_3_eq_3 randbelow_def next_raw_def bisect_right.simps)

lemma generate_random_ips_run:
  "generate_random_ips [\<lparr>network_address = 167772160, prefixlen = 31\<rparr>,
                        \<lparr>network_address = 3232235520, prefixlen = 24\<rparr>] 3 (\<lambda>i. i)
   = Inr ([167772160, 167772160, 3232235524], \<lambda>i. Suc (Suc (Suc (Suc i))))"
  using choices_run
  by (simp add: generate_random_ips_def num_addresses_slash31 num_addresses_slash24 pick_offset_def
      randint_def randbelow_def next_raw_def address_add_def IPv4Address_of_int_def ALL_ONES_def)

lemma generate_random_ips_slash32_run:
  "generate_random_ips [\<lparr>network_address = 16909060, prefixlen = 32\<rparr>] 1 (\<lambda>i. 0)
   = Inr ([16909060], \<lambda>i. 0)"
  by (simp add: generate_random_ips_def num_addresses_slash32 choices_def accumulate_def
      randbelow_def next_raw_def bisect_right.simps pick_offset_def address_add_def
      IPv4Address_of_int_def ALL_ONES_def)

subsection \<open>Parsing and printing an address\<close>

lemma IPv4Address_str_run: "IPv4Address_str 16909060 = ''1.2.3.4''"
  by (simp add: IPv4Address_str_def to_bytes4_def str_nat.simps digit_char_def)
lemma IPv4Address_str_run2: "IPv4Address_str 3232235524 = ''192.168.0.4''"
  by (simp add: IPv4Address_str_def to_bytes4_def str_nat.simps digit_char_def)

lemma split_from_nonempty: "split_from sep cur s \<noteq> []"
  by (induction s arbitrary: cur) simp_all

lemma join_Cons: "ys \<noteq> [] \<Longrightarrow> join sep (x # ys) = x @ sep # join sep ys"
  by (cases ys) simp_all

lemma join_split_from: "join sep (split_from sep cur s) = rev cur @ s"
proof (induction s arbitrary: cur)
  case Nil
  then show ?case by simp
next
  case (Cons c cs)
  show ?case
  proof (cases "c = sep")
    case True
    then show ?thesis using Cons.IH [of "[]"] by (simp add: join_Cons split_from_nonempty)
  next
    case False
    then show ?thesis using Cons.IH [of "c # cur"] by simp
  qed
qed

lemma join_split: "join sep (split s sep) = s"
  by (simp add: split_def join_split_from)

lemma digit_char_code: "d < 10 \<Longrightarrow> (of_char (digit_char d) :: nat) = 48 + d"
proof -
  assume "d < 10"
  then have "d \<in> {0, 1, 2, 3, 4, 5, 6, 7, 8, 9}" by auto
  then show ?thesis by (auto simp: digit_char_def)
qed

lemma digit_value: "isdigit c \<Longrightarrow> (of_char c :: nat) - 48 < 10"
  by (auto simp: isdigit_def)

lemma digit_char_of_char: "isdigit c \<Longrightarrow> digit_char (of_char c - 48) = c"
proof -
  assume d: "isdigit c"
  have "(of_char (digit_char (of_char c - 48)) :: nat) = 48 + (of_char c - 48)"
    by (rule digit_char_code [OF digit_value [OF d]])
  also have "\<dots> = of_char c" using d by (simp add: isdigit_def)
  finally show ?thesis by (simp only: of_char_eq_iff)
qed

lemma zero_digit: "isdigit c \<Longrightarrow> (of_char c :: nat) - 48 = 0 \<Longrightarrow> c = CHR ''0''"
  using digit_char_of_char [of c] by (simp add: digit_char_def)

lemma div_mod_10: "d < 10 \<Longrightarrow> (10 * x + d) div 10 = x \<and> (10 * x + d) mod 10 = (d::nat)"
  by auto

lemma parse_octet_str:
  assumes "parse_octet s = Inr b"
  shows "str_nat b = s \<and> b < 256"
proof -
  from assms have ne: "s \<noteq> []" and dig: "list_all isdigit s" and len: "length s \<le> 3"
    and lead: "s = ''0'' \<or> hd s \<noteq> CHR ''0''" and b: "b = int_of_digits s" and small: "b \<le> 255"
    by (auto simp: parse_octet_def Let_def split: if_splits)
  from ne len consider c1 where "s = [c1]" | c1 c2 where "s = [c1, c2]" | c1 c2 c3 where "s = [c1, c2, c3]"
    by (cases s rule: list.exhaust; cases "tl s"; cases "tl (tl s)"; cases "tl (tl (tl s))") auto
  then have "str_nat b = s"
  proof cases
    case 1
    with dig b show ?thesis
      using digit_value [of c1] digit_char_of_char [of c1]
      by (simp add: int_of_digits_def str_nat.simps)
  next
    case 2
    let ?d1 = "(of_char c1 :: nat) - 48" and ?d2 = "(of_char c2 :: nat) - 48"
    from 2 dig have d: "isdigit c1" "isdigit c2" by simp_all
    from 2 lead d have nz: "?d1 \<noteq> 0" using zero_digit [of c1] by auto
    have bv: "b = 10 * ?d1 + ?d2" using 2 b by (simp add: int_of_digits_def)
    have "b div 10 = ?d1 \<and> b mod 10 = ?d2"
      unfolding bv by (rule div_mod_10) (rule digit_value [OF d(2)])
    moreover have "\<not> b < 10" using bv nz by simp
    ultimately show ?thesis using 2 d digit_value [OF d(1)] digit_char_of_char
      by (simp add: str_nat.simps [of b] str_nat.simps [of ?d1])
  next
    case 3
    let ?d1 = "(of_char c1 :: nat) - 48" and ?d2 = "(of_char c2 :: nat) - 48"
      and ?d3 = "(of_char c3 :: nat) - 48"
    from 3 dig have d: "isdigit c1" "isdigit c2" "isdigit c3" by simp_all
    from 3 lead d have nz: "?d1 \<noteq> 0" using zero_digit [of c1] by auto
    have bv: "b = 10 * (10 * ?d1 + ?d2) + ?d3" using 3 b by (simp add: int_of_digits_def)
    have q: "b div 10 = 10 * ?d1 + ?d2 \<and> b mod 10 = ?d3"
      unfolding bv by (rule div_mod_10) (rule digit_value [OF d(3)])
    have q2: "(10 * ?d1 + ?d2) div 10 = ?d1 \<and> (10 * ?d1 + ?d2) mod 10 = ?d2"
      by (rule div_mod_10) (rule digit_value [OF d(2)])
    have big: "\<not> b < 10" "\<not> 10 * ?d1 + ?d2 < 10" using bv nz by simp_all
    show ?thesis using 3 d digit_value [OF d(1)] digit_char_of_char q q2 big
      by (simp add: str_nat.simps [of b] str_nat.simps [of "10 * ?d1 + ?d2"] str_nat.simps [of ?d1])
  qed
  with small show ?thesis by simp
qed

lemma from_octets4:
  assumes "from_octets 0 [o1, o2, o3, o4] = Inr a"
  shows "map str_nat (to_bytes4 a) = [o1, o2, o3, o4]"
proof -
  from assms obtain b1 b2 b3 b4 where p: "parse_octet o1 = Inr b1" "parse_octet o2 = Inr b2"
      "parse_octet o3 = Inr b3" "parse_octet o4 = Inr b4"
    and a: "a = 256 * (256 * (256 * b1 + b2) + b3) + b4"
    by (auto split: sum.splits)
  note s = parse_octet_str [OF p(1)] parse_octet_str [OF p(2)] parse_octet_str [OF p(3)]
    parse_octet_str [OF p(4)]
  have h: "\<And>x b. b < 256 \<Longrightarrow> (256 * x + b) div 256 = x \<and> (256 * x + b) mod 256 = (b::nat)"
    by auto
  have d1: "a div 256 = 256 * (256 * b1 + b2) + b3" and m1: "a mod 256 = b4"
    using h [of b4 "256 * (256 * b1 + b2) + b3"] s a by blast+
  have d2: "a div 256 div 256 = 256 * b1 + b2" and m2: "a div 256 mod 256 = b3"
    using h [of b3 "256 * b1 + b2"] s d1 by simp_all
  have d3: "a div 256 div 256 div 256 = b1" and m3: "a div 256 div 256 mod 256 = b2"
    using h [of b2 b1] s d2 by simp_all
  have "to_bytes4 a = [b1, b2, b3, b4]"
    unfolding to_bytes4_def using d3 m1 m2 m3 s by simp
  with s show ?thesis by simp
qed

lemma IPv4Address_str_of_str:
  assumes "IPv4Address_of_str s = Inr a"
  shows "IPv4Address_str a = s"
proof -
  let ?os = "split s (CHR ''.'')"
  from assms have len: "length ?os = 4" and f: "from_octets 0 ?os = Inr a"
    by (auto simp: IPv4Address_of_str_def Let_def split: if_splits)
  from len obtain o1 o2 o3 o4 where os: "?os = [o1, o2, o3, o4]"
    by (auto simp: length_Suc_conv numeral_eq_Suc)
  from from_octets4 [of o1 o2 o3 o4 a] f os have "map str_nat (to_bytes4 a) = ?os" by simp
  then show ?thesis by (simp add: IPv4Address_str_def join_split)
qed

lemma IPv4Address_of_str_inj:
  "IPv4Address_of_str s = Inr a \<Longrightarrow> IPv4Address_of_str t = Inr a \<Longrightarrow> s = t"
  using IPv4Address_str_of_str by metis

subsection \<open>Sampling without replacement and the conversion of the entries\<close>

lemma randbelow_eq: "randbelow n g = (g 0 mod n, \<lambda>i. g (Suc i))"
  by (simp add: randbelow_def next_raw_def)

lemma advance_0: "advance 0 g = g"
  by (simp add: advance_def)

lemma advance_Suc: "advance (Suc d) g = advance d (\<lambda>i. g (Suc i))"
  by (simp add: advance_def)

lemma advance_advance: "advance a (advance b g) = advance (a + b) g"
  by (simp add: advance_def add.assoc)

lemma swap_remove_mset:
  assumes "j \<le> m" and "m < length pool"
  shows "add_mset (pool ! j) (mset (take m (pool[j := pool ! m]))) = mset (take (Suc m) pool)"
proof (cases "j = m")
  case True
  then show ?thesis using assms by (simp add: take_Suc_conv_app_nth)
next
  case False
  with assms have j: "j < m" by simp
  have t: "take m (pool[j := pool ! m]) = (take m pool)[j := pool ! m]"
    by (simp add: take_update_swap)
  have jl: "j < length (take m pool)" using j assms by simp
  have in_t: "pool ! j \<in># mset (take m pool)"
    using jl nth_mem [OF jl] by simp
  have "mset ((take m pool)[j := pool ! m]) = add_mset (pool ! m) (mset (take m pool) - {#pool ! j#})"
    using mset_update [OF jl, of "pool ! m"] j by simp
  then have "add_mset (pool ! j) (mset (take m (pool[j := pool ! m])))
      = add_mset (pool ! m) (mset (take m pool))"
    using t in_t by simp
  then show ?thesis using assms by (simp add: take_Suc_conv_app_nth)
qed

lemma sample_loop_props:
  "n = length pool \<Longrightarrow> i + k \<le> n \<Longrightarrow>
     length (fst (sample_loop pool n i k g)) = k \<and>
     mset (fst (sample_loop pool n i k g)) \<subseteq># mset (take (n - i) pool)"
proof (induction k arbitrary: pool i g)
  case 0
  then show ?case by simp
next
  case (Suc k)
  obtain j g1 where r: "randbelow (n - i) g = (j, g1)" by (cases "randbelow (n - i) g")
  let ?m = "n - i - 1"
  let ?pool' = "pool[j := pool ! ?m]"
  obtain rest g2 where d: "sample_loop ?pool' n (Suc i) k g1 = (rest, g2)"
    by (cases "sample_loop ?pool' n (Suc i) k g1")
  have pos: "0 < n - i" using Suc.prems by simp
  have "j < n - i" using r pos by (auto simp: randbelow_def next_raw_def)
  then have jm: "j \<le> ?m" by simp
  have ml: "?m < length pool" using Suc.prems by simp
  have ih: "length rest = k \<and> mset rest \<subseteq># mset (take (n - Suc i) ?pool')"
    using Suc.IH [of ?pool' "Suc i" g1] Suc.prems d by simp
  have "add_mset (pool ! j) (mset (take ?m ?pool')) = mset (take (Suc ?m) pool)"
    by (rule swap_remove_mset [OF jm ml])
  moreover have "Suc ?m = n - i" using pos by simp
  ultimately have "add_mset (pool ! j) (mset (take (n - Suc i) ?pool')) = mset (take (n - i) pool)"
    by simp
  moreover have "add_mset (pool ! j) (mset rest) \<subseteq># add_mset (pool ! j) (mset (take (n - Suc i) ?pool'))"
    using ih by simp
  ultimately have "add_mset (pool ! j) (mset rest) \<subseteq># mset (take (n - i) pool)" by simp
  with ih r d show ?case by simp
qed

lemma sample_loop_rest: "snd (sample_loop pool n i k g) = advance k g"
proof (induction k arbitrary: pool i g)
  case 0
  then show ?case by (simp add: advance_0)
next
  case (Suc k)
  from Suc.IH [of _ "Suc i" "\<lambda>i. g (Suc i)"] show ?case
    by (simp add: randbelow_eq case_prod_beta advance_Suc)
qed

lemma sample_loop_agree:
  "\<forall>i<k. g1 i = g2 i \<Longrightarrow>
     fst (sample_loop pool n j k g1) = fst (sample_loop pool n j k g2)"
proof (induction k arbitrary: pool j g1 g2)
  case 0
  then show ?case by simp
next
  case (Suc k)
  have z: "g1 0 = g2 0" using Suc.prems by simp
  have "\<forall>i<k. g1 (Suc i) = g2 (Suc i)" using Suc.prems by simp
  from Suc.IH [OF this] z show ?case by (simp add: randbelow_eq case_prod_beta)
qed

text \<open>
  The redraw loop returns the first index that is not selected yet, and returns if and only
  if there is one.
\<close>

lemma redraw_found:
  "\<forall>i<d. g i mod n \<in> sel \<Longrightarrow> g d mod n \<notin> sel \<Longrightarrow>
     redraw n sel g = Some (g d mod n, advance (Suc d) g)"
proof (induction d arbitrary: g)
  case 0
  then show ?case by (subst redraw.simps) (simp add: randbelow_eq advance_def)
next
  case (Suc d)
  have z: "g 0 mod n \<in> sel" using Suc.prems(1) by simp
  have "\<forall>i<d. g (Suc i) mod n \<in> sel" using Suc.prems(1) by simp
  from Suc.IH [of "\<lambda>i. g (Suc i)", OF this] Suc.prems(2)
  have "redraw n sel (\<lambda>i. g (Suc i)) = Some (g (Suc d) mod n, advance (Suc d) (\<lambda>i. g (Suc i)))"
    by simp
  with z show ?case by (subst redraw.simps) (simp add: randbelow_eq advance_Suc)
qed

lemma redraw_Some:
  assumes "redraw n sel g = Some r"
  shows "\<exists>d. (\<forall>i<d. g i mod n \<in> sel) \<and> g d mod n \<notin> sel \<and> r = (g d mod n, advance (Suc d) g)"
proof (rule redraw.raw_induct [where P = "\<lambda>n sel g r. \<exists>d. (\<forall>i<d. g i mod n \<in> sel) \<and>
    g d mod n \<notin> sel \<and> r = (g d mod n, advance (Suc d) g)", OF _ assms])
  fix redraw' :: "nat \<Rightarrow> nat set \<Rightarrow> rng \<Rightarrow> (nat \<times> rng) option" and n sel g r
  assume IH: "\<And>n sel g r. redraw' n sel g = Some r \<Longrightarrow>
      \<exists>d. (\<forall>i<d. g i mod n \<in> sel) \<and> g d mod n \<notin> sel \<and> r = (g d mod n, advance (Suc d) g)"
    and prem: "(if fst (randbelow n g) \<in> sel then redraw' n sel (snd (randbelow n g))
                else Some (randbelow n g)) = Some r"
  show "\<exists>d. (\<forall>i<d. g i mod n \<in> sel) \<and> g d mod n \<notin> sel \<and> r = (g d mod n, advance (Suc d) g)"
  proof (cases "g 0 mod n \<in> sel")
    case False
    with prem have "r = (g 0 mod n, advance (Suc 0) g)"
      by (simp add: randbelow_eq advance_def)
    with False show ?thesis by (intro exI [of _ 0]) simp
  next
    case True
    with prem have "redraw' n sel (\<lambda>i. g (Suc i)) = Some r" by (simp add: randbelow_eq)
    from IH [OF this] obtain d where d: "\<forall>i<d. g (Suc i) mod n \<in> sel"
      "g (Suc d) mod n \<notin> sel" "r = (g (Suc d) mod n, advance (Suc d) (\<lambda>i. g (Suc i)))" by blast
    have "\<forall>i<Suc d. g i mod n \<in> sel"
    proof (intro allI impI)
      fix i assume "i < Suc d"
      then show "g i mod n \<in> sel" using True d(1) by (cases i) simp_all
    qed
    with d(2,3) show ?thesis by (intro exI [of _ "Suc d"]) (simp add: advance_Suc)
  qed
qed

lemma redraw_returns:
  assumes "g i mod n \<notin> sel"
  shows "\<exists>r. redraw n sel g = Some r"
proof -
  let ?d = "LEAST i. g i mod n \<notin> sel"
  have a: "g ?d mod n \<notin> sel" using assms by (rule LeastI)
  have b: "\<forall>i<?d. g i mod n \<in> sel" using not_less_Least by blast
  from redraw_found [OF b a] show ?thesis by blast
qed

lemma redraw_never:
  assumes "\<forall>i. g i mod n \<in> sel"
  shows "redraw n sel g = None"
proof (cases "redraw n sel g")
  case None
  then show ?thesis .
next
  case (Some r)
  from redraw_Some [OF Some] assms show ?thesis by blast
qed

lemma nth_distinct_mset:
  assumes "distinct js" and "set js \<subseteq> {..<length xs}"
  shows "mset (map ((!) xs) js) \<subseteq># mset xs"
proof -
  have "mset js = mset_set (set js)" using assms(1) by (simp add: mset_set_set)
  moreover have "mset_set (set js) \<subseteq># mset_set {..<length xs}"
    using assms(2) by (simp add: subset_imp_msubset_mset_set)
  moreover have "mset_set {..<length xs} = mset [0..<length xs]"
    by (simp add: lessThan_atLeast0)
  ultimately have "mset js \<subseteq># mset [0..<length xs]" by simp
  then have "image_mset ((!) xs) (mset js) \<subseteq># image_mset ((!) xs) (mset [0..<length xs])"
    by (rule image_mset_subseteq_mono)
  moreover have "image_mset ((!) xs) (mset [0..<length xs]) = mset xs"
    using map_nth [of xs] by (metis mset_map)
  ultimately show ?thesis by simp
qed

text \<open>
  The selection through the set of indices, when it returns: the entries at \<open>k\<close> distinct
  positions, after \<open>d \<ge> k\<close> draws, and the same from every state with the same \<open>d\<close> draws.
\<close>

lemma sample_set_loop_Some:
  "sample_set_loop pop n sel k g = Some (chosen, g') \<Longrightarrow> 0 < n \<Longrightarrow>
     \<exists>js d. length js = k \<and> distinct js \<and> set js \<inter> sel = {} \<and> set js \<subseteq> {..<n} \<and>
       chosen = map ((!) pop) js \<and> k \<le> d \<and> g' = advance d g \<and>
       (\<forall>g2. (\<forall>i<d. g2 i = g i) \<longrightarrow> sample_set_loop pop n sel k g2 = Some (chosen, advance d g2))"
proof (induction k arbitrary: sel g chosen g')
  case 0
  then show ?case by (intro exI [of _ "[]"] exI [of _ 0]) (simp add: advance_0)
next
  case (Suc k)
  from Suc.prems(1) obtain j g1 where r: "redraw n sel g = Some (j, g1)"
    by (auto split: option.splits)
  from Suc.prems(1) r obtain rest where
    s: "sample_set_loop pop n (insert j sel) k g1 = Some (rest, g')" and c: "chosen = pop ! j # rest"
    by (auto split: option.splits)
  from redraw_Some [OF r] obtain d0 where d0: "\<forall>i<d0. g i mod n \<in> sel" "g d0 mod n \<notin> sel"
    "j = g d0 mod n" "g1 = advance (Suc d0) g" by auto
  from Suc.IH [OF s Suc.prems(2)] obtain js d where
    js: "length js = k" "distinct js" "set js \<inter> insert j sel = {}" "set js \<subseteq> {..<n}"
      "rest = map ((!) pop) js" "k \<le> d" "g' = advance d g1"
      and ag: "\<forall>g2. (\<forall>i<d. g2 i = g1 i) \<longrightarrow>
                 sample_set_loop pop n (insert j sel) k g2 = Some (rest, advance d g2)"
    by blast
  have jn: "j < n" using d0(3) Suc.prems(2) by simp
  have g': "g' = advance (d + Suc d0) g" using js(7) d0(4) by (simp add: advance_advance)
  have agree: "\<forall>g2. (\<forall>i<d + Suc d0. g2 i = g i) \<longrightarrow>
      sample_set_loop pop n sel (Suc k) g2 = Some (chosen, advance (d + Suc d0) g2)"
  proof (intro allI impI)
    fix g2 assume a: "\<forall>i<d + Suc d0. g2 i = g i"
    have "\<forall>i<d0. g2 i mod n \<in> sel" using a d0(1) by simp
    moreover have "g2 d0 mod n \<notin> sel" using a d0(2) by simp
    ultimately have "redraw n sel g2 = Some (g2 d0 mod n, advance (Suc d0) g2)"
      by (rule redraw_found)
    moreover have "g2 d0 = g d0" using a by simp
    ultimately have r2: "redraw n sel g2 = Some (j, advance (Suc d0) g2)" using d0(3) by simp
    have "\<forall>i<d. advance (Suc d0) g2 i = g1 i" using a d0(4) by (simp add: advance_def)
    with ag have "sample_set_loop pop n (insert j sel) k (advance (Suc d0) g2)
        = Some (rest, advance d (advance (Suc d0) g2))" by blast
    with r2 c show "sample_set_loop pop n sel (Suc k) g2 = Some (chosen, advance (d + Suc d0) g2)"
      by (simp add: advance_advance)
  qed
  show ?case
  proof (intro exI [of _ "j # js"] exI [of _ "d + Suc d0"] conjI)
    show "length (j # js) = Suc k" using js(1) by simp
    show "distinct (j # js)" using js(2,3) by auto
    show "set (j # js) \<inter> sel = {}" using js(3) d0(2,3) by auto
    show "set (j # js) \<subseteq> {..<n}" using js(4) jn by simp
    show "chosen = map ((!) pop) (j # js)" using c js(5) by simp
    show "Suc k \<le> d + Suc d0" using js(6) by simp
    show "g' = advance (d + Suc d0) g" by (rule g')
    show "\<forall>g2. (\<forall>i<d + Suc d0. g2 i = g i) \<longrightarrow>
      sample_set_loop pop n sel (Suc k) g2 = Some (chosen, advance (d + Suc d0) g2)" by (rule agree)
  qed
qed

lemma fair_advance: "fair n g \<Longrightarrow> fair n (advance d g)"
  unfolding fair_def advance_def
proof (intro allI impI)
  fix e j assume a: "\<forall>d. \<forall>j<n. \<exists>i. g (d + i) mod n = j" and j: "j < n"
  from a j obtain i where "g ((e + d) + i) mod n = j" by blast
  then have "g (e + i + d) mod n = j" by (simp add: add.commute add.left_commute)
  then show "\<exists>i. g (e + i + d) mod n = j" ..
qed

lemma sample_set_loop_returns:
  "fair n g \<Longrightarrow> finite sel \<Longrightarrow> card sel + k \<le> n \<Longrightarrow> sel \<subseteq> {..<n} \<Longrightarrow>
     \<exists>r. sample_set_loop pop n sel k g = Some r"
proof (induction k arbitrary: sel g)
  case 0
  then show ?case by simp
next
  case (Suc k)
  have "card sel < card {..<n}" using Suc.prems(3) by simp
  then have "sel \<noteq> {..<n}" by auto
  with Suc.prems(4) obtain j where j: "j < n" "j \<notin> sel" by auto
  from Suc.prems(1) j(1) obtain i where "g (0 + i) mod n = j" unfolding fair_def by blast
  with j(2) have "g i mod n \<notin> sel" by simp
  from redraw_returns [of g i n sel, OF this] obtain r where r: "redraw n sel g = Some r" ..
  from redraw_Some [OF r] obtain d where d: "g d mod n \<notin> sel" "r = (g d mod n, advance (Suc d) g)"
    by blast
  let ?j = "g d mod n"
  have n: "0 < n" using j(1) by simp
  have f: "fair n (advance (Suc d) g)" by (rule fair_advance [OF Suc.prems(1)])
  have c: "card (insert ?j sel) + k \<le> n" using Suc.prems(2,3) d(1) by simp
  have s: "insert ?j sel \<subseteq> {..<n}" using Suc.prems(4) n by simp
  from Suc.IH [OF f _ c s] Suc.prems(2) obtain r' where
    "sample_set_loop pop n (insert ?j sel) k (advance (Suc d) g) = Some r'" by auto
  with r d(2) show ?case by (cases r') simp
qed

text \<open>\<^verbatim>\<open>random.sample\<close>, in either branch.\<close>

lemma ceil_log4_upper: "x \<le> 4 ^ ceil_log4 x"
proof (induction x rule: ceil_log4.induct)
  case (1 x)
  show ?case
  proof (cases "x \<le> 1")
    case True
    then show ?thesis by (subst ceil_log4.simps) simp
  next
    case False
    with 1 have "(x + 3) div 4 \<le> 4 ^ ceil_log4 ((x + 3) div 4)" by simp
    moreover have "x \<le> 4 * ((x + 3) div 4)" by simp
    ultimately have "x \<le> 4 * 4 ^ ceil_log4 ((x + 3) div 4)" by linarith
    with False show ?thesis by (subst ceil_log4.simps) simp
  qed
qed

lemma ceil_log4_least: "x \<le> 4 ^ e \<Longrightarrow> ceil_log4 x \<le> e"
proof (induction x arbitrary: e rule: ceil_log4.induct)
  case (1 x)
  show ?case
  proof (cases "x \<le> 1")
    case True
    then show ?thesis by (subst ceil_log4.simps) simp
  next
    case False
    have "e \<noteq> 0" using False "1.prems" by (cases e) simp_all
    then obtain e' where e: "e = Suc e'" by (cases e) simp_all
    with "1.prems" have "x \<le> 4 * 4 ^ e'" by simp
    then have "(x + 3) div 4 \<le> 4 ^ e'" by simp
    from "1.IH" [OF False this] have "ceil_log4 ((x + 3) div 4) \<le> e'" .
    with False e show ?thesis by (subst ceil_log4.simps) simp
  qed
qed

lemma setsize_run: "setsize 2 = 21" "setsize 6 = 85"
  by (simp_all add: setsize_def ceil_log4.simps)

lemma setsize_ge: "21 \<le> setsize k"
  by (simp add: setsize_def)

lemma sample_Some:
  assumes "sample population k g = Some r" and "0 \<le> k" and "k \<le> int (length population)"
  shows "\<exists>chosen d. r = Inr (chosen, advance d g) \<and> length chosen = nat k \<and>
           mset chosen \<subseteq># mset population \<and> nat k \<le> d \<and>
           (length population \<le> setsize (nat k) \<longrightarrow> d = nat k) \<and>
           (\<forall>g2. (\<forall>i<d. g2 i = g i) \<longrightarrow>
              sample population k g2 = Some (Inr (chosen, advance d g2)))"
proof (cases "length population \<le> setsize (nat k)")
  case True
  let ?r = "sample_loop population (length population) 0 (nat k)"
  have r: "r = Inr (?r g)" using assms True by (simp add: sample_def)
  have p: "length (fst (?r g)) = nat k \<and>
      mset (fst (?r g)) \<subseteq># mset (take (length population - 0) population)"
    by (rule sample_loop_props) (use assms in simp_all)
  have rest: "?r h = (fst (?r h), advance (nat k) h)" for h
    using sample_loop_rest [of population "length population" 0 "nat k" h]
    by (metis prod.collapse)
  have "\<forall>g2. (\<forall>i<nat k. g2 i = g i) \<longrightarrow>
      sample population k g2 = Some (Inr (fst (?r g), advance (nat k) g2))"
  proof (intro allI impI)
    fix g2 assume "\<forall>i<nat k. g2 i = g i"
    from sample_loop_agree [OF this] have "fst (?r g2) = fst (?r g)" .
    with rest [of g2] have "?r g2 = (fst (?r g), advance (nat k) g2)" by simp
    then show "sample population k g2 = Some (Inr (fst (?r g), advance (nat k) g2))"
      using assms(2,3) True by (simp add: sample_def)
  qed
  moreover have "r = Inr (fst (?r g), advance (nat k) g)" using r rest [of g] by simp
  ultimately show ?thesis using p
    by (intro exI [of _ "fst (?r g)"] exI [of _ "nat k"]) simp
next
  case False
  have n: "0 < length population" using False setsize_ge [of "nat k"] by linarith
  from assms False obtain c g' where
    s: "sample_set_loop population (length population) {} (nat k) g = Some (c, g')"
      and r: "r = Inr (c, g')"
    by (auto simp: sample_def)
  from sample_set_loop_Some [OF s n] obtain js d where
    js: "length js = nat k" "distinct js" "set js \<subseteq> {..<length population}"
      "c = map ((!) population) js" "nat k \<le> d" "g' = advance d g"
      and ag: "\<forall>g2. (\<forall>i<d. g2 i = g i) \<longrightarrow>
                 sample_set_loop population (length population) {} (nat k) g2
                   = Some (c, advance d g2)"
    by blast
  have m: "mset c \<subseteq># mset population" unfolding js(4) by (rule nth_distinct_mset [OF js(2,3)])
  have l: "length c = nat k" using js(1,4) by simp
  have "\<forall>g2. (\<forall>i<d. g2 i = g i) \<longrightarrow> sample population k g2 = Some (Inr (c, advance d g2))"
  proof (intro allI impI)
    fix g2 assume "\<forall>i<d. g2 i = g i"
    with ag have "sample_set_loop population (length population) {} (nat k) g2
        = Some (c, advance d g2)" by blast
    then show "sample population k g2 = Some (Inr (c, advance d g2))"
      using assms(2,3) False by (simp add: sample_def)
  qed
  with r js(5,6) m l False show ?thesis by (intro exI [of _ c] exI [of _ d]) simp
qed

lemma sample_returns:
  assumes "length population \<le> setsize (nat k) \<or> fair (length population) g"
  shows "\<exists>r. sample population k g = Some r"
proof (cases "0 \<le> k \<and> k \<le> int (length population) \<and> \<not> length population \<le> setsize (nat k)")
  case True
  with assms have f: "fair (length population) g" by simp
  have "nat k \<le> length population" using True by linarith
  then have c: "card ({} :: nat set) + nat k \<le> length population" by simp
  from sample_set_loop_returns [OF f _ c, of population] obtain r
    where "sample_set_loop population (length population) {} (nat k) g = Some r" by auto
  with True show ?thesis by (simp add: sample_def)
next
  case False
  then show ?thesis by (auto simp: sample_def Let_def)
qed

lemma sample_negative: "k < 0 \<Longrightarrow> sample population k g = Some (Inl ValueError)"
  by (simp add: sample_def)



lemma to_addresses_str: "to_addresses xs = Inr ips \<Longrightarrow> map IPv4Address_str ips = xs"
proof (induction xs arbitrary: ips)
  case Nil
  then show ?case by simp
next
  case (Cons x xs)
  then show ?case by (auto split: sum.splits dest: IPv4Address_str_of_str)
qed

lemma to_addresses_length: "to_addresses xs = Inr ips \<Longrightarrow> length ips = length xs"
  using to_addresses_str [of xs ips] by (metis length_map)

lemma to_addresses_distinct:
  assumes "to_addresses xs = Inr ips" and "distinct xs"
  shows "distinct ips"
proof -
  have "distinct (map IPv4Address_str ips)" using to_addresses_str [OF assms(1)] assms(2) by simp
  then show ?thesis by (simp add: distinct_map)
qed



subsection \<open>Totality and failures of the two samplers\<close>

lemma wf_network_slash31: "wf_network \<lparr>network_address = 167772160, prefixlen = 31\<rparr>"
  by (simp add: wf_network_def hostmask_def)







lemma generate_random_ips_zero_run:
  "generate_random_ips [\<lparr>network_address = 167772160, prefixlen = 31\<rparr>] 0 (\<lambda>i. i)
   = Inr ([], \<lambda>i. i)"
  by (simp add: generate_random_ips_def num_addresses_slash31 choices_def accumulate_def)

lemma generate_random_ips_empty: "generate_random_ips [] cnt g = Inl IndexError"
  by (simp add: generate_random_ips_def choices_empty)

lemma generate_random_ips_nonpositive:
  assumes "networks \<noteq> []" and "cnt \<le> 0"
  shows "generate_random_ips networks cnt g = Inr ([], g)"
proof -
  have w: "\<forall>w\<in>set (map num_addresses networks). 1 \<le> w" by (simp add: num_addresses_pos)
  from choices_ok [OF assms(1) _ w, of cnt g] obtain chosen g'
    where c: "choices networks (map num_addresses networks) cnt g = Inr (chosen, g')"
      and l: "length chosen = nat cnt" by auto
  from l assms(2) have "chosen = []" by simp
  moreover have "g' = g" using c assms(2) by (auto simp: choices_def Let_def split: if_splits)
  ultimately show ?thesis using c by (simp add: generate_random_ips_def)
qed

lemma generate_random_ips_ok:
  assumes "networks \<noteq> []" and "\<forall>net\<in>set networks. wf_network net"
  shows "\<exists>ips g'. generate_random_ips networks cnt g = Inr (ips, g') \<and> length ips = nat cnt"
proof -
  have w: "\<forall>w\<in>set (map num_addresses networks). 1 \<le> w" by (simp add: num_addresses_pos)
  from choices_ok [OF assms(1) _ w, of cnt g] obtain chosen g1
    where c: "choices networks (map num_addresses networks) cnt g = Inr (chosen, g1)"
      and l: "length chosen = nat cnt" and sub: "set chosen \<subseteq> set networks" by auto
  have "\<forall>net\<in>set chosen. network_address net < 2 ^ 32"
    using sub assms(2) unfolding wf_network_def by blast
  from ips_loop_total [OF this, of "[]" g1] obtain ips g2
    where i: "ips_loop chosen [] g1 = Inr (ips, g2)" by blast
  from ips_loop_drawn [OF i] have "list_all2 drawn chosen ips" by simp
  then have "length ips = length chosen" by (simp add: list_all2_lengthD)
  with c i l show ?thesis by (simp add: generate_random_ips_def)
qed

lemma from_list_empty: "generate_random_ips_from_list [] cnt g = Some (Inr ([], g))"
  by (simp add: generate_random_ips_from_list_def)

lemma from_list_zero: "generate_random_ips_from_list ip_list 0 g = Some (Inr ([], g))"
  by (cases ip_list) (simp_all add: generate_random_ips_from_list_def sample_def)

lemma from_list_negative:
  "ip_list \<noteq> [] \<Longrightarrow> cnt < 0 \<Longrightarrow> generate_random_ips_from_list ip_list cnt g = Some (Inl ValueError)"
  by (simp add: generate_random_ips_from_list_def sample_negative)



lemma from_list_returns:
  assumes "int (length ip_list) \<le> cnt \<or> length ip_list \<le> setsize (nat cnt) \<or>
           fair (length ip_list) g"
  shows "\<exists>r. generate_random_ips_from_list ip_list cnt g = Some r"
proof (cases "ip_list = [] \<or> int (length ip_list) \<le> cnt")
  case True
  then show ?thesis by (auto simp: generate_random_ips_from_list_def)
next
  case False
  with assms have "length ip_list \<le> setsize (nat cnt) \<or> fair (length ip_list) g" by simp
  from sample_returns [OF this] obtain r where "sample ip_list cnt g = Some r" ..
  with False show ?thesis
    by (auto simp: generate_random_ips_from_list_def split: sum.splits)
qed

text \<open>
  A pool of 22 entries is sampled through the set of indices. A second draw of an index
  that is selected already is thrown away; on a generator that repeats one index for ever
  the call does not return.
\<close>

lemma length_pool22: "length pool22 = 22"
  by (simp add: pool22_def)

lemma sample_pool22:
  "sample pool22 2 g = map_option Inr (sample_set_loop pool22 22 {} (Suc (Suc 0)) g)"
  by (simp add: sample_def length_pool22 setsize_def numeral_2_eq_2)

lemma IPv4Address_of_str_10_0_0_0: "IPv4Address_of_str ''10.0.0.0'' = Inr 167772160"
  by (simp add: IPv4Address_of_str_def split_def parse_octet_def isdigit_def int_of_digits_def)


lemma IPv4Address_of_str_10_0_0_5: "IPv4Address_of_str ''10.0.0.5'' = Inr 167772165"
  by (simp add: IPv4Address_of_str_def split_def parse_octet_def isdigit_def int_of_digits_def)


lemma from_list_collision_run:
  "generate_random_ips_from_list pool22 2 (\<lambda>i. if i < 3 then [0, 0, 5] ! i else 96 + i)
     = Some (Inr ([167772160, 167772165],
                  advance 3 (\<lambda>i. if i < 3 then [0, 0, 5] ! i else 96 + i)))"
proof -
  let ?g = "\<lambda>i::nat. if i < 3 then [0, 0, 5 :: nat] ! i else 96 + i"
  have a: "redraw 22 {} ?g = Some (0, advance (Suc 0) ?g)"
    using redraw_found [of 0 ?g 22 "{}"] by simp
  have b: "redraw 22 {0} (advance (Suc 0) ?g) = Some (5, advance (Suc (Suc 0)) (advance (Suc 0) ?g))"
    using redraw_found [of "Suc 0" "advance (Suc 0) ?g" 22 "{0}"] by (simp add: advance_def)
  have "sample_set_loop pool22 22 {} (Suc (Suc 0)) ?g
      = Some ([''10.0.0.0'', ''10.0.0.5''], advance 3 ?g)"
    using a b by (simp add: advance_advance pool22_def numeral_3_eq_3)
  then have "sample pool22 2 ?g = Some (Inr ([''10.0.0.0'', ''10.0.0.5''], advance 3 ?g))"
    by (simp add: sample_pool22)
  then show ?thesis
    by (simp add: generate_random_ips_from_list_def length_pool22 IPv4Address_of_str_10_0_0_0
        IPv4Address_of_str_10_0_0_5)
qed

lemma from_list_never_returns: "generate_random_ips_from_list pool22 2 (\<lambda>i. 0) = None"
proof -
  let ?g = "\<lambda>i::nat. 0 :: nat"
  have a: "redraw 22 {} ?g = Some (0, advance (Suc 0) ?g)"
    using redraw_found [of 0 ?g 22 "{}"] by simp
  have "redraw 22 {0} (advance (Suc 0) ?g) = None"
    by (rule redraw_never) (simp add: advance_def)
  with a have "sample_set_loop pool22 22 {} (Suc (Suc 0)) ?g = None" by simp
  then have "sample pool22 2 ?g = None" by (simp add: sample_pool22)
  then show ?thesis by (simp add: generate_random_ips_from_list_def length_pool22)
qed


lemma fair_collision: "fair 22 (\<lambda>i. if i < 3 then [0, 0, 5] ! i else 96 + i)"
  unfolding fair_def
proof (intro allI impI)
  fix d j :: nat assume j: "j < 22"
  let ?i = "j + 22 * (d + 5) - 96 - d"
  have e: "d + ?i = j + 22 * (d + 5) - 96" by simp
  have "\<not> d + ?i < 3" unfolding e by simp
  moreover have m: "(j + 22 * (d + 5)) mod 22 = j" using j by (simp only: mod_mult_self2 mod_less)
  have "96 + (d + ?i) = j + 22 * (d + 5)" unfolding e by simp
  then have "(96 + (d + ?i)) mod 22 = j" using m by (simp only:)
  ultimately have "(if d + ?i < 3 then [0, 0, 5] ! (d + ?i) else 96 + (d + ?i)) mod 22 = j"
    by simp
  then show "\<exists>i. (if d + i < 3 then [0, 0, 5] ! (d + i) else 96 + (d + i)) mod 22 = j" ..
qed

lemma wf_network_slash24: "wf_network \<lparr>network_address = 3232235520, prefixlen = 24\<rparr>"
  by (simp add: wf_network_def hostmask_def)



subsection \<open>The samplers read only the draws they consume\<close>

lemma draw_choices_agree:
  "\<forall>i<k. g1 i = g2 i \<Longrightarrow>
     fst (draw_choices p cw t hi k g1) = fst (draw_choices p cw t hi k g2)"
proof (induction k arbitrary: g1 g2)
  case 0
  then show ?case by simp
next
  case (Suc k)
  have "\<forall>i<k. g1 (Suc i) = g2 (Suc i)" using Suc.prems by simp
  from Suc.IH [OF this] have "fst (draw_choices p cw t hi k (\<lambda>i. g1 (Suc i)))
      = fst (draw_choices p cw t hi k (\<lambda>i. g2 (Suc i)))" .
  moreover have "g1 0 = g2 0" using Suc.prems by simp
  ultimately show ?case by (simp add: randbelow_eq case_prod_beta)
qed

lemma draw_choices_rest: "snd (draw_choices p cw t hi k g) = (\<lambda>i. g (i + k))"
proof (induction k arbitrary: g)
  case 0
  then show ?case by simp
next
  case (Suc k)
  from Suc.IH [of "\<lambda>i. g (Suc i)"] show ?case by (simp add: randbelow_eq case_prod_beta)
qed

lemma pick_offset_agree:
  assumes "g1 0 = g2 0"
  shows "map_sum id fst (pick_offset net g1) = map_sum id fst (pick_offset net g2)"
  using assms by (simp add: pick_offset_def randint_def randbelow_eq Let_def)

lemma pick_offset_rest:
  "pick_offset net g = Inr (offset, g') \<Longrightarrow> g' = g \<or> g' = (\<lambda>i. g (Suc i))"
  by (auto simp: pick_offset_def randint_def randbelow_eq Let_def split: if_splits)

lemma ips_loop_agree:
  "\<forall>i<length nets. g1 i = g2 i \<Longrightarrow>
     map_sum id fst (ips_loop nets acc g1) = map_sum id fst (ips_loop nets acc g2)"
proof (induction nets arbitrary: acc g1 g2)
  case Nil
  then show ?case by simp
next
  case (Cons net nets)
  have z: "g1 0 = g2 0" using Cons.prems by simp
  obtain offset h1 where p1: "pick_offset net g1 = Inr (offset, h1)"
    using pick_offset_total [of net g1] by blast
  obtain offset' h2 where p2: "pick_offset net g2 = Inr (offset', h2)"
    using pick_offset_total [of net g2] by blast
  from pick_offset_agree [of g1 g2 net, OF z] p1 p2 have o: "offset' = offset" by simp
  have same: "(h1 = g1 \<and> h2 = g2) \<or> (h1 = (\<lambda>i. g1 (Suc i)) \<and> h2 = (\<lambda>i. g2 (Suc i)))"
    using p1 p2 by (auto simp: pick_offset_def randint_def randbelow_eq Let_def split: if_splits)
  have agree: "\<forall>i<length nets. h1 i = h2 i" using same Cons.prems by auto
  show ?case
  proof (cases "address_add (network_address net) offset")
    case (Inl e)
    with p1 p2 o show ?thesis by simp
  next
    case (Inr ip)
    with p1 p2 o Cons.IH [OF agree, of "acc @ [ip]"] show ?thesis by simp
  qed
qed

lemma generate_random_ips_agree:
  assumes "\<forall>i < 2 * nat n. g1 i = g2 i"
  shows "map_sum id fst (generate_random_ips networks n g1)
           = map_sum id fst (generate_random_ips networks n g2)"
proof (cases "choices networks (map num_addresses networks) n g1")
  case (Inl e)
  then have "choices networks (map num_addresses networks) n g2 = Inl e"
    by (auto simp: choices_def Let_def split: if_splits)
  with Inl show ?thesis by (simp add: generate_random_ips_def)
next
  case (Inr r)
  obtain chosen h1 where r: "r = (chosen, h1)" by (cases r)
  let ?d = "\<lambda>g. draw_choices networks (accumulate (map num_addresses networks))
      (last (accumulate (map num_addresses networks))) (length networks - 1) (nat n) g"
  from Inr r have d1: "?d g1 = (chosen, h1)"
    and c2: "choices networks (map num_addresses networks) n g2 = Inr (?d g2)"
    by (auto simp: choices_def Let_def split: if_splits)
  obtain chosen' h2 where d2: "?d g2 = (chosen', h2)" by (cases "?d g2")
  have "\<forall>i<nat n. g1 i = g2 i" using assms by simp
  from draw_choices_agree [OF this] d1 d2 have same: "chosen' = chosen" by (metis fst_conv)
  have l: "length chosen = nat n" using draw_choices_length [of _ _ _ _ "nat n" g1] d1
    by (metis fst_conv)
  have h1: "h1 = (\<lambda>i. g1 (i + nat n))" using draw_choices_rest [of _ _ _ _ "nat n" g1] d1
    by (metis snd_conv)
  have h2: "h2 = (\<lambda>i. g2 (i + nat n))" using draw_choices_rest [of _ _ _ _ "nat n" g2] d2
    by (metis snd_conv)
  have "\<forall>i<length chosen. h1 i = h2 i" using assms l h1 h2 by simp
  from ips_loop_agree [OF this, of "[]"] Inr r c2 d2 same show ?thesis
    by (simp add: generate_random_ips_def)
qed

text \<open>
  A call that returns addresses has consumed a number \<open>d\<close> of draws, hands the state on
  advanced by \<open>d\<close>, and returns the same addresses from every state with the same first
  \<open>d\<close> draws.
\<close>

lemma ips_loop_consumes:
  "ips_loop nets acc g = Inr (ips, g') \<Longrightarrow>
     \<exists>d. d \<le> length nets \<and> g' = advance d g \<and>
         (\<forall>g2. (\<forall>i<d. g2 i = g i) \<longrightarrow> ips_loop nets acc g2 = Inr (ips, advance d g2))"
proof (induction nets arbitrary: acc g)
  case Nil
  then show ?case by (intro exI [of _ 0]) (simp add: advance_0)
next
  case (Cons net nets)
  from Cons.prems obtain offset g1 ip where
    p: "pick_offset net g = Inr (offset, g1)"
      and a: "address_add (network_address net) offset = Inr ip"
      and l: "ips_loop nets (acc @ [ip]) g1 = Inr (ips, g')"
    by (auto split: sum.splits)
  from Cons.IH [OF l] obtain d where d: "d \<le> length nets" "g' = advance d g1"
    and ag: "\<forall>g2. (\<forall>i<d. g2 i = g1 i) \<longrightarrow>
               ips_loop nets (acc @ [ip]) g2 = Inr (ips, advance d g2)" by blast
  show ?case
  proof (cases "num_addresses net > 2")
    case True
    have po: "pick_offset net h
        = Inr (1 + int (h 0 mod nat (num_addresses net - 2)), advance (Suc 0) h)" for h
      using True by (simp add: pick_offset_def randint_def randbelow_eq advance_def)
    from p po [of g] have o: "offset = 1 + int (g 0 mod nat (num_addresses net - 2))"
      and g1: "g1 = advance (Suc 0) g" by simp_all
    have "\<forall>g2. (\<forall>i<Suc d. g2 i = g i) \<longrightarrow>
        ips_loop (net # nets) acc g2 = Inr (ips, advance (Suc d) g2)"
    proof (intro allI impI)
      fix g2 assume e: "\<forall>i<Suc d. g2 i = g i"
      then have z: "g2 0 = g 0" by simp
      have "\<forall>i<d. advance (Suc 0) g2 i = g1 i" using e g1 by (simp add: advance_def)
      with ag have "ips_loop nets (acc @ [ip]) (advance (Suc 0) g2)
          = Inr (ips, advance d (advance (Suc 0) g2))" by blast
      with po [of g2] z o a show "ips_loop (net # nets) acc g2 = Inr (ips, advance (Suc d) g2)"
        by (simp add: advance_advance)
    qed
    moreover have "g' = advance (Suc d) g" using d(2) g1 by (simp add: advance_advance)
    ultimately show ?thesis using d(1) by (intro exI [of _ "Suc d"]) simp
  next
    case False
    have po: "pick_offset net h = Inr (0, h)" for h
      using False by (simp add: pick_offset_def)
    from p po [of g] have o: "offset = 0" and g1: "g1 = g" by simp_all
    have "\<forall>g2. (\<forall>i<d. g2 i = g i) \<longrightarrow> ips_loop (net # nets) acc g2 = Inr (ips, advance d g2)"
    proof (intro allI impI)
      fix g2 assume "\<forall>i<d. g2 i = g i"
      with ag g1 have "ips_loop nets (acc @ [ip]) g2 = Inr (ips, advance d g2)" by blast
      with po [of g2] o a show "ips_loop (net # nets) acc g2 = Inr (ips, advance d g2)" by simp
    qed
    with d g1 show ?thesis by (intro exI [of _ d]) simp
  qed
qed

lemma draw_choices_advance: "snd (draw_choices p cw t hi k g) = advance k g"
  by (simp add: draw_choices_rest advance_def)

lemma generate_random_ips_consumes:
  assumes "generate_random_ips networks n g = Inr (ips, g')"
  shows "length ips = nat n \<and>
         (\<exists>d. nat n \<le> d \<and> d \<le> 2 * nat n \<and> g' = advance d g \<and>
              (\<forall>g2. (\<forall>i<d. g2 i = g i) \<longrightarrow>
                 generate_random_ips networks n g2 = Inr (ips, advance d g2)))"
proof -
  let ?cw = "accumulate (map num_addresses networks)"
  let ?d = "draw_choices networks ?cw (last ?cw) (length networks - 1) (nat n)"
  from assms obtain chosen g1 where
    c: "choices networks (map num_addresses networks) n g = Inr (chosen, g1)"
      and l: "ips_loop chosen [] g1 = Inr (ips, g')"
    by (auto simp: generate_random_ips_def split: sum.splits)
  have ok: "length ?cw = length networks \<and> ?cw \<noteq> [] \<and> \<not> last ?cw \<le> 0"
  proof (rule ccontr)
    assume "\<not> ?thesis"
    then have "\<exists>e. choices networks (map num_addresses networks) n g = Inl e"
      by (auto simp: choices_def Let_def)
    with c show False by simp
  qed
  have ch: "choices networks (map num_addresses networks) n h = Inr (?d h)" for h
    using ok by (simp add: choices_def Let_def)
  from c ch [of g] have d1: "?d g = (chosen, g1)" by simp
  have len: "length chosen = nat n"
    using draw_choices_length [of networks ?cw "last ?cw" "length networks - 1" "nat n" g]
    unfolding d1 by simp
  have g1: "g1 = advance (nat n) g"
    using draw_choices_advance [of networks ?cw "last ?cw" "length networks - 1" "nat n" g]
    unfolding d1 by simp
  from ips_loop_drawn [OF l] have "list_all2 drawn chosen ips" by simp
  then have "length chosen = length ips" by (rule list_all2_lengthD)
  with len have li: "length ips = nat n" by simp
  from ips_loop_consumes [OF l] obtain d where d: "d \<le> length chosen" "g' = advance d g1"
    and ag: "\<forall>g2. (\<forall>i<d. g2 i = g1 i) \<longrightarrow> ips_loop chosen [] g2 = Inr (ips, advance d g2)"
    by blast
  have a: "\<forall>g2. (\<forall>i<d + nat n. g2 i = g i) \<longrightarrow>
      generate_random_ips networks n g2 = Inr (ips, advance (d + nat n) g2)"
  proof (intro allI impI)
    fix g2 assume e: "\<forall>i<d + nat n. g2 i = g i"
    then have "\<forall>i<nat n. g2 i = g i" by simp
    from draw_choices_agree [OF this, of networks ?cw "last ?cw" "length networks - 1"]
    have "fst (?d g2) = chosen" unfolding d1 by simp
    moreover have "snd (?d g2) = advance (nat n) g2" by (rule draw_choices_advance)
    ultimately have d2: "?d g2 = (chosen, advance (nat n) g2)"
      by (cases "?d g2") simp
    have "\<forall>i<d. advance (nat n) g2 i = g1 i" using e g1 by (simp add: advance_def)
    with ag have "ips_loop chosen [] (advance (nat n) g2)
        = Inr (ips, advance d (advance (nat n) g2))" by blast
    then show "generate_random_ips networks n g2 = Inr (ips, advance (d + nat n) g2)"
      unfolding generate_random_ips_def Let_def ch [of g2] d2 by (simp add: advance_advance)
  qed
  have b: "g' = advance (d + nat n) g" using d(2) g1 by (simp add: advance_advance)
  have c1: "nat n \<le> d + nat n" by simp
  have c2: "d + nat n \<le> 2 * nat n" using d(1) len by simp
  from a b c1 c2 have "\<exists>d. nat n \<le> d \<and> d \<le> 2 * nat n \<and> g' = advance d g \<and>
              (\<forall>g2. (\<forall>i<d. g2 i = g i) \<longrightarrow>
                 generate_random_ips networks n g2 = Inr (ips, advance d g2))"
    by (intro exI [of _ "d + nat n"] conjI)
  with li show ?thesis ..
qed

lemma generate_random_ips_failure:
  assumes "generate_random_ips networks n g = Inl e" and "\<forall>i<2 * nat n. g2 i = g i"
  shows "generate_random_ips networks n g2 = Inl e"
proof -
  have "\<forall>i<2 * nat n. g i = g2 i" using assms(2) by simp
  from generate_random_ips_agree [OF this, of networks] assms(1)
  show ?thesis by (cases "generate_random_ips networks n g2") simp_all
qed

lemma from_list_consumes:
  assumes "generate_random_ips_from_list ip_list m g = Some (Inr (ips, g'))"
  shows "length ips = nat (min m (int (length ip_list))) \<and>
         (\<exists>d. g' = advance d g \<and>
              (int (length ip_list) \<le> m \<longrightarrow> d = 0) \<and>
              (m < int (length ip_list) \<longrightarrow> nat m \<le> d) \<and>
              (length ip_list \<le> setsize (nat m) \<longrightarrow> d \<le> nat m) \<and>
              (\<forall>g2. (\<forall>i<d. g2 i = g i) \<longrightarrow>
                 generate_random_ips_from_list ip_list m g2 = Some (Inr (ips, advance d g2))))"
proof (cases "ip_list = [] \<or> int (length ip_list) \<le> m")
  case True
  have g': "g' = g" using assms True
    by (auto simp: generate_random_ips_from_list_def split: sum.splits if_splits)
  have l: "length ips = length ip_list" using assms True
    by (auto simp: generate_random_ips_from_list_def to_addresses_length
        split: sum.splits if_splits)
  have "generate_random_ips_from_list ip_list m g2 = Some (Inr (ips, g2))" for g2
    using assms True
    by (auto simp: generate_random_ips_from_list_def split: sum.splits if_splits)
  with g' l True show ?thesis by (intro conjI exI [of _ 0]) (auto simp: advance_0)
next
  case False
  then have ne: "ip_list \<noteq> []" and lt: "m < int (length ip_list)" by simp_all
  from assms ne lt obtain r0 where s0: "sample ip_list m g = Some r0"
    by (auto simp: generate_random_ips_from_list_def split: option.splits)
  have m0: "0 \<le> m"
  proof (rule ccontr)
    assume "\<not> 0 \<le> m"
    then have "sample ip_list m g = Some (Inl ValueError)" by (simp add: sample_negative)
    with assms ne lt show False by (simp add: generate_random_ips_from_list_def)
  qed
  from sample_Some [OF s0 m0] lt obtain chosen d where
    r0: "r0 = Inr (chosen, advance d g)" and lc: "length chosen = nat m" and d: "nat m \<le> d"
      and dp: "length ip_list \<le> setsize (nat m) \<longrightarrow> d = nat m"
      and ag: "\<forall>g2. (\<forall>i<d. g2 i = g i) \<longrightarrow> sample ip_list m g2 = Some (Inr (chosen, advance d g2))"
    by auto
  from assms ne lt s0 r0 have t: "to_addresses chosen = Inr ips" and g': "g' = advance d g"
    by (auto simp: generate_random_ips_from_list_def split: sum.splits)
  have l: "length ips = nat (min m (int (length ip_list)))"
    using to_addresses_length [OF t] lc lt by simp
  have "\<forall>g2. (\<forall>i<d. g2 i = g i) \<longrightarrow>
      generate_random_ips_from_list ip_list m g2 = Some (Inr (ips, advance d g2))"
  proof (intro allI impI)
    fix g2 assume "\<forall>i<d. g2 i = g i"
    with ag have "sample ip_list m g2 = Some (Inr (chosen, advance d g2))" by blast
    with ne lt t show "generate_random_ips_from_list ip_list m g2 = Some (Inr (ips, advance d g2))"
      by (simp add: generate_random_ips_from_list_def)
  qed
  with l g' d dp lt show ?thesis by (intro conjI exI [of _ d]) simp_all
qed

lemma from_list_failure:
  assumes "generate_random_ips_from_list ip_list m g = Some (Inl e)"
  shows "\<exists>d. \<forall>g2. (\<forall>i<d. g2 i = g i) \<longrightarrow>
           generate_random_ips_from_list ip_list m g2 = Some (Inl e)"
proof (cases "ip_list = [] \<or> int (length ip_list) \<le> m \<or> m < 0")
  case True
  have "generate_random_ips_from_list ip_list m g2 = Some (Inl e)" for g2
    using assms True
    by (auto simp: generate_random_ips_from_list_def sample_negative
        split: sum.splits if_splits)
  then show ?thesis by blast
next
  case False
  then have ne: "ip_list \<noteq> []" and lt: "m < int (length ip_list)" and m0: "0 \<le> m" by simp_all
  from assms ne lt obtain r0 where s0: "sample ip_list m g = Some r0"
    by (auto simp: generate_random_ips_from_list_def split: option.splits)
  from sample_Some [OF s0 m0] lt obtain chosen d where
    r0: "r0 = Inr (chosen, advance d g)"
      and ag: "\<forall>g2. (\<forall>i<d. g2 i = g i) \<longrightarrow> sample ip_list m g2 = Some (Inr (chosen, advance d g2))"
    by auto
  from assms ne lt s0 r0 have t: "to_addresses chosen = Inl e"
    by (auto simp: generate_random_ips_from_list_def split: sum.splits)
  have "\<forall>g2. (\<forall>i<d. g2 i = g i) \<longrightarrow> generate_random_ips_from_list ip_list m g2 = Some (Inl e)"
  proof (intro allI impI)
    fix g2 assume "\<forall>i<d. g2 i = g i"
    with ag have "sample ip_list m g2 = Some (Inr (chosen, advance d g2))" by blast
    with ne lt t show "generate_random_ips_from_list ip_list m g2 = Some (Inl e)"
      by (simp add: generate_random_ips_from_list_def)
  qed
  then show ?thesis ..
qed

section \<open>Properties of the probe\<close>

text \<open>
  The probe reports a timeout exactly for the two exchanges that \<^verbatim>\<open>requests\<close> reports as
  \<^verbatim>\<open>Timeout\<close>, a timeout of the connect and a timeout of the wait for the headers; for every
  other exchange it returns the address and the difference of the two clock readings.
\<close>

lemma test_ip_None_iff:
  "test_ip ip timeout env = None \<longleftrightarrow>
     network env (''http://'' @ IPv4Address_str ip) timeout \<in> {Connect_timeout, Headers_timeout}"
  by (cases "network env (''http://'' @ IPv4Address_str ip) timeout")
    (simp_all add: test_ip_def get_def)

lemma test_ip_Some:
  "test_ip ip timeout env = Some r \<Longrightarrow>
     r = (IPv4Address_str ip, monotonic_end env - monotonic_start env)"
  by (cases "network env (''http://'' @ IPv4Address_str ip) timeout")
    (simp_all add: test_ip_def get_def)

lemma test_ip_classification:
  "(get env (''http://'' @ IPv4Address_str ip) timeout = Raised e \<and> isinstance_Timeout e \<longrightarrow>
      test_ip ip timeout env = None) \<and>
   (get env (''http://'' @ IPv4Address_str ip) timeout = Raised e \<and> \<not> isinstance_Timeout e \<longrightarrow>
      test_ip ip timeout env
        = Some (IPv4Address_str ip, monotonic_end env - monotonic_start env)) \<and>
   (get env (''http://'' @ IPv4Address_str ip) timeout = Returned response \<longrightarrow>
      test_ip ip timeout env
        = Some (IPv4Address_str ip, monotonic_end env - monotonic_start env))"
  by (simp add: test_ip_def)

lemma test_ip_timed_out:
  assumes "timed_out (network env (''http://'' @ IPv4Address_str ip) timeout)"
    and "network env (''http://'' @ IPv4Address_str ip) timeout \<noteq> Body_timeout"
  shows "test_ip ip timeout env = None"
  using assms
  by (cases "network env (''http://'' @ IPv4Address_str ip) timeout")
    (simp_all add: test_ip_def get_def)

lemma test_ip_not_timed_out:
  assumes "\<not> timed_out (network env (''http://'' @ IPv4Address_str ip) timeout)"
  shows "test_ip ip timeout env
           = Some (IPv4Address_str ip, monotonic_end env - monotonic_start env)"
  using assms
  by (cases "network env (''http://'' @ IPv4Address_str ip) timeout")
    (simp_all add: test_ip_def get_def)

section \<open>Properties of the scheduler\<close>

subsection \<open>What holds throughout a call\<close>

lemma map_filter_append: "List.map_filter f (xs @ ys) = List.map_filter f xs @ List.map_filter f ys"
  by (simp add: List.map_filter_def)


lemma consistent_submitted: "consistent ips timeout world (submitted ips)"
  by (simp add: consistent_def submitted_def list_all_iff List.map_filter_def)


lemma loop_body_fields:
  "futures (loop_body ips i r s) = futures s"
  "yielded (loop_body ips i r s) = yielded s"
  "pbar_total (pbar (loop_body ips i r s)) = pbar_total (pbar s)"
  "pbar_n (pbar (loop_body ips i r s)) = pbar_n (pbar s) + 1"
  "responsive (loop_body ips i r s) = responsive s @ (case r of None \<Rightarrow> [] | Some p \<Rightarrow> [p])"
  by (simp_all add: loop_body_def split: option.splits)


lemma map_filter_snoc:
  "List.map_filter f (xs @ [x]) = List.map_filter f xs @ (case f x of None \<Rightarrow> [] | Some p \<Rightarrow> [p])"
  by (simp add: List.map_filter_def split: option.splits)


lemma update_future_consistent:
  assumes c: "consistent ips timeout world s" and i: "i < length (futures s)"
    and ny: "i \<notin> set (yielded s)"
    and v: "v \<in> {PENDING, RUNNING, FINISHED (outcome ips timeout world i)}"
  shows "consistent ips timeout world (s\<lparr>futures := (futures s)[i := v]\<rparr>)"
proof -
  let ?s' = "s\<lparr>futures := (futures s)[i := v]\<rparr>"
  from c have len: "length (futures s) = length ips"
    and y: "\<forall>j\<in>set (yielded s). j < length ips \<and> futures s ! j = FINISHED (outcome ips timeout world j)"
    and a: "\<forall>j\<in>set [0..<length ips]. futures s ! j \<in> {PENDING, RUNNING, FINISHED (outcome ips timeout world j)}"
    by (simp_all add: consistent_def list_all_iff)
  have y': "\<forall>j\<in>set (yielded ?s'). j < length ips \<and> futures ?s' ! j = FINISHED (outcome ips timeout world j)"
  proof
    fix j assume j: "j \<in> set (yielded ?s')"
    then have "j \<noteq> i" using ny by auto
    with y j show "j < length ips \<and> futures ?s' ! j = FINISHED (outcome ips timeout world j)" by simp
  qed
  have a': "\<forall>j\<in>set [0..<length ips]. futures ?s' ! j \<in> {PENDING, RUNNING, FINISHED (outcome ips timeout world j)}"
  proof
    fix j assume j: "j \<in> set [0..<length ips]"
    show "futures ?s' ! j \<in> {PENDING, RUNNING, FINISHED (outcome ips timeout world j)}"
    proof (cases "j = i")
      case True
      then show ?thesis using v i by simp
    next
      case False
      then show ?thesis using a j by simp
    qed
  qed
  from c y' a' show ?thesis unfolding consistent_def list_all_iff by simp
qed


lemma yield_consistent:
  assumes c: "consistent ips timeout world s" and i: "i < length (futures s)"
    and ny: "i \<notin> set (yielded s)"
    and f: "futures s ! i = FINISHED result"
  shows "consistent ips timeout world (loop_body ips i result (s\<lparr>yielded := yielded s @ [i]\<rparr>))"
proof -
  let ?s' = "loop_body ips i result (s\<lparr>yielded := yielded s @ [i]\<rparr>)"
  from c have len: "length (futures s) = length ips"
    and y: "\<forall>j\<in>set (yielded s). j < length ips \<and> futures s ! j = FINISHED (outcome ips timeout world j)"
    and a: "\<forall>j\<in>set [0..<length ips]. futures s ! j \<in> {PENDING, RUNNING, FINISHED (outcome ips timeout world j)}"
    and r: "responsive s = List.map_filter (outcome ips timeout world) (yielded s)"
    and n: "pbar_n (pbar s) = length (yielded s)" and t: "pbar_total (pbar s) = length ips"
    and d: "distinct (yielded s)"
    by (simp_all add: consistent_def list_all_iff)
  have "futures s ! i \<in> {PENDING, RUNNING, FINISHED (outcome ips timeout world i)}"
    using a i len by simp
  with f have res: "result = outcome ips timeout world i" by simp
  have 1: "length (futures ?s') = length ips" using len by (simp add: loop_body_fields)
  have 2: "pbar_total (pbar ?s') = length ips" using t by (simp add: loop_body_fields)
  have 3: "pbar_n (pbar ?s') = length (yielded ?s')" using n by (simp add: loop_body_fields)
  have 4: "distinct (yielded ?s')" using d ny by (simp add: loop_body_fields)
  have 5: "\<forall>j\<in>set (yielded ?s'). j < length ips \<and> futures ?s' ! j = FINISHED (outcome ips timeout world j)"
    using y i len f res by (simp add: loop_body_fields)
  have 6: "\<forall>j\<in>set [0..<length ips]. futures ?s' ! j \<in> {PENDING, RUNNING, FINISHED (outcome ips timeout world j)}"
    using a by (simp add: loop_body_fields)
  have 7: "responsive ?s' = List.map_filter (outcome ips timeout world) (yielded ?s')"
    using r res by (simp add: loop_body_fields map_filter_snoc)
  from 1 2 3 4 5 6 7 show ?thesis unfolding consistent_def list_all_iff by blast
qed


lemma step_consistent:
  assumes "consistent ips timeout world s" and "step ips workers timeout world e s = Some s'"
  shows "consistent ips timeout world s'"
proof (cases e)
  case (Start i)
  with assms(2) have i: "i < length (futures s)" and p: "futures s ! i = PENDING"
    and s': "s' = s\<lparr>futures := (futures s)[i := RUNNING]\<rparr>"
    by (simp_all split: if_splits)
  have "i \<notin> set (yielded s)" using assms(1) p by (auto simp: consistent_def list_all_iff)
  from update_future_consistent [OF assms(1) i this, of RUNNING] s' show ?thesis by simp
next
  case (Finish i)
  with assms(2) have i: "i < length (futures s)" and p: "futures s ! i = RUNNING"
    and s': "s' = s\<lparr>futures := (futures s)[i := FINISHED (test_ip (ips ! i) timeout (world i))]\<rparr>"
    by (simp_all split: if_splits)
  have "i \<notin> set (yielded s)" using assms(1) p by (auto simp: consistent_def list_all_iff)
  from update_future_consistent [OF assms(1) i this, of "FINISHED (outcome ips timeout world i)"] s'
  show ?thesis by (simp add: outcome_def)
next
  case (Yield i)
  with assms(2) have i: "i < length (futures s)" and ny: "i \<notin> set (yielded s)"
    by (simp_all split: if_splits)
  with Yield assms(2) have "\<exists>result. futures s ! i = FINISHED result \<and>
      s' = loop_body ips i result (s\<lparr>yielded := yielded s @ [i]\<rparr>)"
    by (cases "futures s ! i") auto
  then obtain result where f: "futures s ! i = FINISHED result"
    and s': "s' = loop_body ips i result (s\<lparr>yielded := yielded s @ [i]\<rparr>)" by blast
  from yield_consistent [OF assms(1) i ny f] s' show ?thesis by simp
qed


lemma run_consistent:
  "consistent ips timeout world s \<Longrightarrow> run ips workers timeout world es s = Some s' \<Longrightarrow>
     consistent ips timeout world s'"
proof (induction es arbitrary: s)
  case Nil
  then show ?case by simp
next
  case (Cons e es)
  from Cons.prems(2) obtain s1 where s1: "step ips workers timeout world e s = Some s1"
    and r: "run ips workers timeout world es s1 = Some s'"
    by (auto split: option.splits)
  from Cons.IH [OF step_consistent [OF Cons.prems(1) s1] r] show ?case .
qed


lemma step_counter:
  assumes "step ips workers timeout world e s = Some s'"
  shows "pbar_n (pbar s') = pbar_n (pbar s) + (if is_Yield e then 1 else 0)"
proof (cases e)
  case (Start i)
  with assms show ?thesis by (auto split: if_splits)
next
  case (Finish i)
  with assms show ?thesis by (auto split: if_splits)
next
  case (Yield i)
  with assms have "\<exists>result. s' = loop_body ips i result (s\<lparr>yielded := yielded s @ [i]\<rparr>)"
    by (cases "futures s ! i") (auto split: if_splits)
  then obtain result where "s' = loop_body ips i result (s\<lparr>yielded := yielded s @ [i]\<rparr>)" ..
  with Yield show ?thesis by (simp add: loop_body_fields)
qed

lemma run_counter:
  "run ips workers timeout world es s = Some s' \<Longrightarrow>
     pbar_n (pbar s') = pbar_n (pbar s) + length (filter is_Yield es)"
proof (induction es arbitrary: s)
  case Nil
  then show ?case by simp
next
  case (Cons e es)
  from Cons.prems obtain s1 where s1: "step ips workers timeout world e s = Some s1"
    and r: "run ips workers timeout world es s1 = Some s'"
    by (auto split: option.splits)
  from Cons.IH [OF r] step_counter [OF s1] show ?case by simp
qed


lemma permutation_of_indices:
  assumes "distinct ys" and "\<forall>i\<in>set ys. i < n" and "length ys = n"
  shows "set ys = {..<n}" and "mset ys = mset [0..<n]"
proof -
  have c: "card (set ys) = card {..<n}" using assms(1,3) by (simp add: distinct_card)
  have sub: "set ys \<subseteq> {..<n}" using assms(2) by auto
  show s: "set ys = {..<n}" by (rule card_subset_eq [OF finite_lessThan sub c])
  have "{..<n} = set [0..<n]" by (simp only: set_upt atLeast0LessThan)
  with s have e: "set ys = set [0..<n]" by (rule trans)
  show "mset ys = mset [0..<n]"
    by (rule iffD1 [OF set_eq_iff_mset_eq_distinct [OF assms(1) distinct_upt] e])
qed

lemma exhausted_all_finished:
  assumes "consistent ips timeout world s" and "exhausted s"
  shows "set (yielded s) = {..<length ips}" and "mset (yielded s) = mset [0..<length ips]"
    and "\<forall>i<length ips. futures s ! i = FINISHED (outcome ips timeout world i)"
proof -
  from assms have d: "distinct (yielded s)" and b: "\<forall>i\<in>set (yielded s). i < length ips"
    and l: "length (yielded s) = length ips"
    and f: "\<forall>i\<in>set (yielded s). futures s ! i = FINISHED (outcome ips timeout world i)"
    by (auto simp: consistent_def exhausted_def list_all_iff)
  from permutation_of_indices [OF d b l]
  show s: "set (yielded s) = {..<length ips}" and "mset (yielded s) = mset [0..<length ips]" .
  from f s show "\<forall>i<length ips. futures s ! i = FINISHED (outcome ips timeout world i)" by auto
qed


lemma mset_map_filter: "mset xs = mset ys \<Longrightarrow> mset (List.map_filter f xs) = mset (List.map_filter f ys)"
proof -
  assume a: "mset xs = mset ys"
  have "\<And>zs. mset (List.map_filter f zs) = image_mset (the \<circ> f) (filter_mset (\<lambda>x. f x \<noteq> None) (mset zs))"
    by (simp add: List.map_filter_def)
  with a show ?thesis by simp
qed


lemma length_map_filter_le: "length (List.map_filter f xs) \<le> length xs"
  by (simp add: List.map_filter_def)



subsection \<open>Every batch has a complete course\<close>

lemma run_append:
  "run ips workers timeout world (es1 @ es2) s =
     (case run ips workers timeout world es1 s of
        None \<Rightarrow> None
      | Some s1 \<Rightarrow> run ips workers timeout world es2 s1)"
  by (induction es1 arbitrary: s) (simp_all split: option.splits)

lemma one_by_one_Suc: "one_by_one k (Suc m) = [Start k, Finish k, Yield k] @ one_by_one (Suc k) m"
proof -
  have "[k..<k + Suc m] = k # [Suc k..<Suc k + m]" by (simp add: upt_conv_Cons)
  then show ?thesis by (simp add: one_by_one_def)
qed

lemma settled_submitted: "settled ips timeout world 0 (submitted ips)"
  by (simp add: settled_def submitted_def)

lemma one_round:
  assumes p: "settled ips timeout world k s" and k: "k < length ips" and w: "0 < workers"
  shows "\<exists>s'. run ips workers timeout world [Start k, Finish k, Yield k] s = Some s' \<and>
           settled ips timeout world (Suc k) s'"
proof -
  let ?F = "\<lambda>i. FINISHED (outcome ips timeout world i)"
  let ?A = "map ?F [0..<k]"
  let ?n = "length ips"
  from p have fs: "futures s = ?A @ replicate (?n - k) PENDING" and ys: "yielded s = [0..<k]"
    by (simp_all add: settled_def)
  have lenA: "length ?A = k" by simp
  have rep: "replicate (?n - k) PENDING = PENDING # replicate (?n - Suc k) PENDING"
    using k by (cases "?n - k") simp_all
  have fs': "futures s = ?A @ PENDING # replicate (?n - Suc k) PENDING" using fs rep by simp
  have len: "k < length (futures s)" using fs' by simp
  have at_k: "futures s ! k = PENDING" using fs' lenA by (simp add: nth_append)
  have tk: "take k (futures s) = ?A" using fs' lenA by simp
  have older: "list_all (\<lambda>f. f \<noteq> PENDING) (take k (futures s))"
    unfolding tk by (simp add: list_all_iff)
  have "filter (\<lambda>f. f = RUNNING) (futures s) = []"
    unfolding fs by (simp add: filter_empty_conv)
  then have idle: "running_count s = 0" by (simp add: running_count_def)
  let ?s1 = "s\<lparr>futures := (futures s)[k := RUNNING]\<rparr>"
  have st1: "step ips workers timeout world (Start k) s = Some ?s1"
    using len at_k older idle w by simp
  let ?s2 = "?s1\<lparr>futures := (futures ?s1)[k := ?F k]\<rparr>"
  have st2: "step ips workers timeout world (Finish k) ?s1 = Some ?s2"
    using len by (simp add: outcome_def)
  have f2: "futures ?s2 = ?A @ ?F k # replicate (?n - Suc k) PENDING"
    using fs' lenA by (simp add: list_update_append)
  let ?s3 = "loop_body ips k (outcome ips timeout world k) (?s2\<lparr>yielded := yielded ?s2 @ [k]\<rparr>)"
  have at_k2: "futures ?s2 ! k = ?F k" using len by simp
  have ny: "k \<notin> set (yielded ?s2)" using ys by simp
  have len2: "k < length (futures ?s2)" using len by simp
  have st3: "step ips workers timeout world (Yield k) ?s2 = Some ?s3"
    using len2 ny at_k2 by (simp only: step.simps future_state.case if_True simp_thms)
  have "futures ?s3 = map ?F [0..<Suc k] @ replicate (?n - Suc k) PENDING"
    using f2 by (simp add: loop_body_fields)
  moreover have "yielded ?s3 = [0..<Suc k]" using ys by (simp add: loop_body_fields)
  ultimately have "settled ips timeout world (Suc k) ?s3" by (simp add: settled_def)
  moreover have "run ips workers timeout world [Start k, Finish k, Yield k] s = Some ?s3"
    using st1 st2 st3 by (simp only: run.simps option.case)
  ultimately show ?thesis by blast
qed

lemma rounds:
  assumes "0 < workers"
  shows "settled ips timeout world k s \<Longrightarrow> k + m \<le> length ips \<Longrightarrow>
     \<exists>s'. run ips workers timeout world (one_by_one k m) s = Some s' \<and>
          settled ips timeout world (k + m) s'"
proof (induction m arbitrary: k s)
  case 0
  then show ?case by (simp add: one_by_one_def)
next
  case (Suc m)
  from Suc.prems have k: "k < length ips" by simp
  from one_round [OF Suc.prems(1) k assms] obtain s1
    where r1: "run ips workers timeout world [Start k, Finish k, Yield k] s = Some s1"
      and p1: "settled ips timeout world (Suc k) s1" by blast
  from Suc.IH [OF p1] Suc.prems(2) obtain s'
    where r2: "run ips workers timeout world (one_by_one (Suc k) m) s1 = Some s'"
      and p2: "settled ips timeout world (Suc k + m) s'" by auto
  have "run ips workers timeout world (one_by_one k (Suc m)) s = Some s'"
    unfolding one_by_one_Suc run_append using r1 r2 by simp
  with p2 show ?case by auto
qed

lemma settled_exhausted: "settled ips timeout world (length ips) s \<Longrightarrow> exhausted s"
  by (simp add: settled_def exhausted_def)

lemma complete_course:
  assumes "0 < workers"
  shows "\<exists>s. run ips workers timeout world (one_by_one 0 (length ips)) (submitted ips) = Some s \<and>
           exhausted s"
  using rounds [OF assms settled_submitted, of "length ips" ips timeout world] settled_exhausted
  by auto

lemma check_ips_returns:
  assumes "0 < workers"
  shows "\<exists>r. check_ips ips workers timeout world (one_by_one 0 (length ips)) = Inr (Some r)"
proof -
  from complete_course [OF assms] obtain s
    where "run ips workers timeout world (one_by_one 0 (length ips)) (submitted ips) = Some s"
      and "exhausted s" by blast
  with assms show ?thesis by (simp add: check_ips_def)
qed

subsection \<open>Prefixes of a course, and a concrete batch\<close>

lemma yielded_bound:
  assumes "consistent ips timeout world s"
  shows "length (yielded s) \<le> length ips"
proof -
  from assms have d: "distinct (yielded s)" and b: "\<forall>i\<in>set (yielded s). i < length ips"
    by (auto simp: consistent_def list_all_iff)
  have "length (yielded s) = card (set (yielded s))" using d by (simp add: distinct_card)
  also have "\<dots> \<le> card {..<length ips}" using b by (intro card_mono) auto
  finally show ?thesis by simp
qed

lemma run_prefix:
  assumes "run ips workers timeout world (es1 @ es2) s = Some s'"
  shows "\<exists>s1. run ips workers timeout world es1 s = Some s1 \<and>
           run ips workers timeout world es2 s1 = Some s'"
  using assms by (auto simp: run_append split: option.splits)

lemma check_ips_Some:
  assumes "check_ips ips workers timeout world events = Inr (Some r)"
  shows "0 < workers \<and> (\<exists>s. run ips workers timeout world events (submitted ips) = Some s \<and>
           exhausted s \<and> r = responsive s)"
  using assms by (auto simp: check_ips_def split: if_splits option.splits)

lemma outcome_run:
  "outcome [16909060, 84281096] 1 world2 0 = None"
  "outcome [16909060, 84281096] 1 world2 (Suc 0) = Some (''5.6.7.8'', 1 / 4)"
  by (simp_all add: outcome_def test_ip_def get_def world2_def IPv4Address_str_def to_bytes4_def
      str_nat.simps digit_char_def)

lemma run_two:
  "run [16909060, 84281096] 2 1 world2 [Start 0, Start 1, Finish 1, Yield 1, Finish 0, Yield 0]
     (submitted [16909060, 84281096])
   = Some \<lparr>futures = [FINISHED None, FINISHED (Some (''5.6.7.8'', 1 / 4))], yielded = [1, 0],
           responsive = [(''5.6.7.8'', 1 / 4)],
           pbar = \<lparr>pbar_total = 2, pbar_n = 2, pbar_postfix = Postfix_timeout 16909060\<rparr>\<rparr>"
  using outcome_run
  by (simp add: submitted_def running_count_def loop_body_def outcome_def)

lemma check_ips_two:
  "check_ips [16909060, 84281096] 2 1 world2 [Start 0, Start 1, Finish 1, Yield 1, Finish 0, Yield 0]
   = Inr (Some [(''5.6.7.8'', 1 / 4)])"
  unfolding check_ips_def run_two by (simp add: exhausted_def)

lemma second_start_needs_a_free_worker:
  "run [16909060, 84281096] 1 1 world2 [Start 0, Start 1] (submitted [16909060, 84281096]) = None"
  by (simp add: submitted_def running_count_def)

section \<open>Properties of the report\<close>

lemma isdigit_digit_char: "d < 10 \<Longrightarrow> isdigit (digit_char d)"
  using digit_char_code [of d] by (simp add: isdigit_def)

lemma str_nat_digits: "list_all isdigit (str_nat n)"
proof (induction n rule: str_nat.induct)
  case (1 n)
  show ?case
  proof (cases "n < 10")
    case True
    then show ?thesis by (subst str_nat.simps) (simp add: isdigit_digit_char)
  next
    case False
    with 1 have "list_all isdigit (str_nat (n div 10))" by simp
    moreover have "isdigit (digit_char (n mod 10))" by (rule isdigit_digit_char) simp
    ultimately show ?thesis using False by (subst str_nat.simps) simp
  qed
qed

lemma str_nat_nonempty: "str_nat n \<noteq> []"
  by (subst str_nat.simps) simp

lemma length_str_nat_1: "n < 10 \<Longrightarrow> length (str_nat n) = 1"
  by (subst str_nat.simps) simp

lemma length_str_nat_2: "n < 100 \<Longrightarrow> length (str_nat n) \<le> 2"
proof (cases "n < 10")
  case True
  then show ?thesis by (simp add: length_str_nat_1)
next
  case False
  assume "n < 100"
  then have "n div 10 < 10" by simp
  with False show ?thesis by (subst str_nat.simps) (simp add: length_str_nat_1)
qed

lemma length_str_nat_4: "n < 10000 \<Longrightarrow> length (str_nat n) \<le> 4"
proof (cases "n < 100")
  case True
  then show ?thesis using length_str_nat_2 [of n] by simp
next
  case False
  assume n: "n < 10000"
  then have a: "n div 10 < 1000" by simp
  have "length (str_nat (n div 10)) \<le> 3"
  proof (cases "n div 10 < 100")
    case True
    then show ?thesis using length_str_nat_2 [of "n div 10"] by simp
  next
    case False
    from a have "n div 10 div 10 < 100" by simp
    with False length_str_nat_2 [of "n div 10 div 10"] show ?thesis
      by (subst str_nat.simps) simp
  qed
  with False show ?thesis by (subst str_nat.simps) simp
qed

lemma length_zfill: "length s \<le> w \<Longrightarrow> length (zfill w s) = w"
  by (simp add: zfill_def)

lemma zfill_digits: "list_all isdigit s \<Longrightarrow> list_all isdigit (zfill w s)"
  by (auto simp: zfill_def list_all_iff isdigit_def)

lemma two_digits:
  assumes "n < 100"
  shows "\<exists>a b. zfill 2 (str_nat n) = [a, b] \<and> isdigit a \<and> isdigit b"
proof -
  have l: "length (zfill 2 (str_nat n)) = 2" using assms by (simp add: length_zfill length_str_nat_2)
  have d: "list_all isdigit (zfill 2 (str_nat n))" by (simp add: zfill_digits str_nat_digits)
  from l obtain a b where "zfill 2 (str_nat n) = [a, b]"
    by (auto simp: length_Suc_conv numeral_2_eq_2)
  with d show ?thesis by simp
qed

lemma format_2f_two_decimals:
  assumes "0 \<le> x"
  shows "two_decimals (format_2f x)"
proof -
  let ?q = "nat (round_half_even (\<bar>x\<bar> * 100))"
  let ?A = "str_nat (?q div 100)"
  from two_digits [of "?q mod 100"] obtain a b
    where z: "zfill 2 (str_nat (?q mod 100)) = [a, b]" and d: "isdigit a" "isdigit b" by auto
  have f: "format_2f x = ?A @ [CHR ''.'', a, b]" using assms z by (simp add: format_2f_def Let_def)
  have ne: "?A \<noteq> []" by (rule str_nat_nonempty)
  then have l: "1 \<le> length ?A" by (cases ?A) simp_all
  have "list_all isdigit ?A" by (rule str_nat_digits)
  with l d show ?thesis unfolding f two_decimals_def by (simp add: nth_append)
qed

lemma length_str_nat_ge: "10 ^ k \<le> n \<Longrightarrow> k < length (str_nat n)"
proof (induction k arbitrary: n)
  case 0
  have "str_nat n \<noteq> []" by (rule str_nat_nonempty)
  then show ?case by simp
next
  case (Suc k)
  define a :: nat where "a = 10 ^ k"
  have "1 \<le> a" by (simp add: a_def)
  moreover have "10 * a \<le> n" using Suc.prems by (simp add: a_def)
  ultimately have n: "\<not> n < 10" by linarith
  from Suc.prems have "10 ^ k \<le> n div 10" by simp
  from Suc.IH [OF this] n show ?case by (subst str_nat.simps) simp
qed

lemma length_str_nat_year: "1000 \<le> n \<Longrightarrow> n < 10000 \<Longrightarrow> length (str_nat n) = 4"
  using length_str_nat_ge [of 3 n] length_str_nat_4 [of n] by simp

lemma int_of_digits_snoc:
  "int_of_digits (s @ [c]) = 10 * int_of_digits s + ((of_char c :: nat) - 48)"
  by (simp add: int_of_digits_def)

lemma int_of_digits_str_nat: "int_of_digits (str_nat n) = n"
proof (induction n rule: str_nat.induct)
  case (1 n)
  show ?case
  proof (cases "n < 10")
    case True
    then show ?thesis
      by (subst str_nat.simps) (simp add: int_of_digits_def digit_char_code)
  next
    case False
    with 1 have "int_of_digits (str_nat (n div 10)) = n div 10" by simp
    moreover have "(of_char (digit_char (n mod 10)) :: nat) - 48 = n mod 10"
      by (simp add: digit_char_code)
    ultimately show ?thesis using False
      by (subst str_nat.simps) (simp add: int_of_digits_snoc)
  qed
qed

lemma int_of_digits_zeros: "int_of_digits (replicate k (CHR ''0'') @ s) = int_of_digits s"
proof -
  have "foldl (\<lambda>acc c. 10 * acc + ((of_char c :: nat) - 48)) 0 (replicate k (CHR ''0'')) = 0"
    by (induction k) simp_all
  then show ?thesis by (simp add: int_of_digits_def)
qed

lemma int_of_digits_zfill: "int_of_digits (zfill w (str_nat n)) = n"
  by (simp add: zfill_def int_of_digits_zeros int_of_digits_str_nat)

text \<open>
  The stamp of a date from the year 1000 on: six fields of known widths, so the stamp has
  15 characters and each field is read back from its place.
\<close>

lemma strftime_parts:
  assumes "valid_datetime d" and "1000 \<le> year d"
  shows "\<exists>Y m dd H M S. strftime d = Y @ m @ dd @ CHR ''_'' # H @ M @ S \<and>
           length Y = 4 \<and> length m = 2 \<and> length dd = 2 \<and> length H = 2 \<and> length M = 2 \<and>
           length S = 2 \<and> list_all isdigit (Y @ m @ dd) \<and> list_all isdigit (H @ M @ S) \<and>
           int_of_digits Y = year d \<and> int_of_digits m = month d \<and> int_of_digits dd = day d \<and>
           int_of_digits H = hour d \<and> int_of_digits M = minute d \<and> int_of_digits S = second d"
proof -
  let ?Y = "str_nat (year d)" and ?m = "zfill 2 (str_nat (month d))"
    and ?d = "zfill 2 (str_nat (day d))" and ?H = "zfill 2 (str_nat (hour d))"
    and ?M = "zfill 2 (str_nat (minute d))" and ?S = "zfill 2 (str_nat (second d))"
  from assms have r: "year d < 10000" "month d < 100" "day d < 100" "hour d < 100"
    "minute d < 100" "second d < 100" by (simp_all add: valid_datetime_def)
  have l: "length ?Y = 4" "length ?m = 2" "length ?d = 2" "length ?H = 2" "length ?M = 2" "length ?S = 2"
    using r assms(2) by (simp_all add: length_zfill length_str_nat_2 length_str_nat_year)
  have g: "list_all isdigit (?Y @ ?m @ ?d)" "list_all isdigit (?H @ ?M @ ?S)"
    by (simp_all add: zfill_digits str_nat_digits)
  have v: "int_of_digits ?Y = year d" "int_of_digits ?m = month d" "int_of_digits ?d = day d"
    "int_of_digits ?H = hour d" "int_of_digits ?M = minute d" "int_of_digits ?S = second d"
    by (simp_all add: int_of_digits_zfill int_of_digits_str_nat)
  have s: "strftime d = ?Y @ ?m @ ?d @ CHR ''_'' # ?H @ ?M @ ?S" by (simp add: strftime_def)
  from s l g v show ?thesis by blast
qed

lemma strftime_shape:
  assumes "valid_datetime d" and "1000 \<le> year d"
  shows "length (strftime d) = 15 \<and> list_all isdigit (take 8 (strftime d)) \<and>
         strftime d ! 8 = CHR ''_'' \<and> list_all isdigit (drop 9 (strftime d))"
proof -
  from strftime_parts [OF assms] obtain Y m dd H M S where
    s: "strftime d = Y @ m @ dd @ CHR ''_'' # H @ M @ S"
      and l: "length Y = 4" "length m = 2" "length dd = 2" "length H = 2" "length M = 2" "length S = 2"
      and g: "list_all isdigit (Y @ m @ dd)" "list_all isdigit (H @ M @ S)" by blast
  define P where "P = Y @ m @ dd"
  define Q where "Q = H @ M @ S"
  have s': "strftime d = P @ CHR ''_'' # Q" by (simp add: s P_def Q_def)
  have lP: "length P = 8" and lQ: "length Q = 6" using l by (simp_all add: P_def Q_def)
  have gP: "list_all isdigit P" and gQ: "list_all isdigit Q" using g by (simp_all add: P_def Q_def)
  have "length (strftime d) = 15" unfolding s' using lP lQ by simp
  moreover have "take 8 (strftime d) = P" unfolding s' using lP by simp
  moreover have "strftime d ! 8 = CHR ''_''" unfolding s' using lP by (simp add: nth_append)
  moreover have "drop 9 (strftime d) = Q" unfolding s' using lP by simp
  ultimately show ?thesis using gP gQ by simp
qed

lemma strftime_fields:
  assumes "valid_datetime d" and "1000 \<le> year d"
  shows "int_of_digits (take 4 (strftime d)) = year d \<and>
         int_of_digits (take 2 (drop 4 (strftime d))) = month d \<and>
         int_of_digits (take 2 (drop 6 (strftime d))) = day d \<and>
         int_of_digits (take 2 (drop 9 (strftime d))) = hour d \<and>
         int_of_digits (take 2 (drop 11 (strftime d))) = minute d \<and>
         int_of_digits (take 2 (drop 13 (strftime d))) = second d"
proof -
  from strftime_parts [OF assms] obtain Y m dd H M S where
    s: "strftime d = Y @ m @ dd @ CHR ''_'' # H @ M @ S"
      and l: "length Y = 4" "length m = 2" "length dd = 2" "length H = 2" "length M = 2" "length S = 2"
      and v: "int_of_digits Y = year d" "int_of_digits m = month d" "int_of_digits dd = day d"
        "int_of_digits H = hour d" "int_of_digits M = minute d" "int_of_digits S = second d"
    by blast
  have "take 4 (strftime d) = Y" unfolding s using l by simp
  moreover have "take 2 (drop 4 (strftime d)) = m" unfolding s using l by simp
  moreover have "take 2 (drop 6 (strftime d)) = dd" unfolding s using l by simp
  moreover have "take 2 (drop 9 (strftime d)) = H" unfolding s using l by simp
  moreover have "take 2 (drop 11 (strftime d)) = M" unfolding s using l by simp
  moreover have "take 2 (drop 13 (strftime d)) = S" unfolding s using l by simp
  ultimately show ?thesis using v by simp
qed

text \<open>Before the year 1000 the stamp is shorter.\<close>

lemma strftime_year_999:
  "strftime \<lparr>year = 999, month = 1, day = 2, hour = 3, minute = 4, second = 5\<rparr>
     = ''9990102_030405''"
  by (simp add: strftime_def zfill_def str_nat.simps digit_char_def)

text \<open>
  The printed time denotes the multiple of one hundredth that is nearest to the time.
\<close>

lemma round_half_even_near: "\<bar>real_of_int (round_half_even y) - y\<bar> \<le> 1 / 2"
proof -
  have a: "real_of_int \<lfloor>y\<rfloor> \<le> y" and b: "y < real_of_int \<lfloor>y\<rfloor> + 1" by linarith+
  show ?thesis
  proof (cases "y - real_of_int \<lfloor>y\<rfloor> < 1 / 2")
    case True
    then have "round_half_even y = \<lfloor>y\<rfloor>" by (simp add: round_half_even_def Let_def)
    with a True show ?thesis by simp
  next
    case False
    then have "round_half_even y = \<lfloor>y\<rfloor> \<or> round_half_even y = \<lfloor>y\<rfloor> + 1"
      by (simp add: round_half_even_def Let_def)
    moreover have "round_half_even y = \<lfloor>y\<rfloor> \<longrightarrow> y - real_of_int \<lfloor>y\<rfloor> = 1 / 2"
      using False by (auto simp: round_half_even_def Let_def split: if_splits)
    ultimately show ?thesis using a b False by auto
  qed
qed

lemma round_half_even_nonneg: "0 \<le> y \<Longrightarrow> 0 \<le> round_half_even y"
  by (auto simp: round_half_even_def Let_def)

lemma format_2f_value:
  assumes "0 \<le> x"
  shows "decimal_value (format_2f x) = real (nat (round_half_even (x * 100))) / 100"
    and "\<bar>decimal_value (format_2f x) - x\<bar> \<le> 1 / 200"
proof -
  let ?q = "nat (round_half_even (x * 100))"
  let ?A = "str_nat (?q div 100)"
  let ?Z = "zfill 2 (str_nat (?q mod 100))"
  have f: "format_2f x = ?A @ CHR ''.'' # ?Z" using assms by (simp add: format_2f_def Let_def)
  have lz: "length ?Z = 2" by (simp add: length_zfill length_str_nat_2)
  have t: "take (length (format_2f x) - 3) (format_2f x) = ?A" unfolding f using lz by simp
  have d: "drop (length (format_2f x) - 2) (format_2f x) = ?Z" unfolding f using lz by simp
  have "real ?q = real (?q div 100 * 100 + ?q mod 100)" by simp
  also have "\<dots> = real (?q div 100) * 100 + real (?q mod 100)"
    by (simp only: of_nat_add of_nat_mult of_nat_numeral)
  finally have e: "real ?q / 100 = real (?q div 100) + real (?q mod 100) / 100"
    by (simp add: add_divide_distrib)
  have "decimal_value (format_2f x) = real (?q div 100) + real (?q mod 100) / 100"
    unfolding decimal_value_def t d by (simp add: int_of_digits_zfill int_of_digits_str_nat)
  with e show v: "decimal_value (format_2f x) = real ?q / 100" by simp
  have "0 \<le> round_half_even (x * 100)" using assms by (simp add: round_half_even_nonneg)
  then have "real ?q = real_of_int (round_half_even (x * 100))" by simp
  moreover have "\<bar>real_of_int (round_half_even (x * 100)) - x * 100\<bar> \<le> 1 / 2"
    by (rule round_half_even_near)
  ultimately have "\<bar>real ?q - x * 100\<bar> \<le> 1 / 2" by simp
  then show "\<bar>decimal_value (format_2f x) - x\<bar> \<le> 1 / 200" unfolding v by (simp add: abs_le_iff field_simps)
qed

lemma header_row: "writerow [''ip'', ''response_time_s''] = ''ip,response_time_s'' @ [CHR 0x0D, CHR 0x0A]"
  by (simp add: writerow_def quote_field_def)

lemma writes_of_report:
  "filter is_Write_file (main_report choice now timeout rs) =
     (if rs \<noteq> [] then
        [Write_file (''responsive_ips_'' @ choice @ ''_'' @ strftime now @ ''.csv'')
           (writerow [''ip'', ''response_time_s''] @
            concat (map (\<lambda>(ip, elapsed). writerow [ip, format_2f elapsed]) rs))]
      else [])"
proof -
  have "filter is_Write_file (map (\<lambda>(ip, elapsed). Print (ip @ '', '' @ format_2f elapsed @ ''s'')) rs) = []"
    by (induction rs) auto
  then show ?thesis by (simp add: main_report_def Let_def)
qed

lemma write_iff: "(\<exists>e\<in>set es. is_Write_file e) \<longleftrightarrow> filter is_Write_file es \<noteq> []"
  by (simp add: filter_empty_conv)

lemma set_join: "set (join sep xs) \<subseteq> insert sep (\<Union> (set ` set xs))"
  by (induction sep xs rule: join.induct) auto

lemma quote_field_plain:
  assumes "\<forall>c\<in>set s. isdigit c \<or> c = CHR ''.'' \<or> c = CHR ''-''"
  shows "quote_field s = s"
proof -
  have "\<not> list_ex (\<lambda>c. c \<in> {CHR '','', CHR 0x22, CHR 0x0D, CHR 0x0A}) s"
    using assms by (auto simp: list_ex_iff isdigit_def)
  then show ?thesis by (simp add: quote_field_def)
qed

lemma IPv4Address_str_chars: "\<forall>c\<in>set (IPv4Address_str a). isdigit c \<or> c = CHR ''.'' \<or> c = CHR ''-''"
proof
  fix c assume "c \<in> set (IPv4Address_str a)"
  with set_join [of "CHR ''.''" "map str_nat (to_bytes4 a)"]
  have "c = CHR ''.'' \<or> (\<exists>n. c \<in> set (str_nat n))" by (auto simp: IPv4Address_str_def)
  moreover have "\<And>n. c \<in> set (str_nat n) \<Longrightarrow> isdigit c"
    using str_nat_digits by (auto simp: list_all_iff)
  ultimately show "isdigit c \<or> c = CHR ''.'' \<or> c = CHR ''-''" by blast
qed

lemma format_2f_chars: "\<forall>c\<in>set (format_2f x). isdigit c \<or> c = CHR ''.'' \<or> c = CHR ''-''"
proof -
  have d: "\<And>n c. c \<in> set (str_nat n) \<Longrightarrow> isdigit c"
    using str_nat_digits by (auto simp: list_all_iff)
  have z: "\<And>n c. c \<in> set (zfill 2 (str_nat n)) \<Longrightarrow> isdigit c"
    using zfill_digits [OF str_nat_digits] by (auto simp: list_all_iff)
  show ?thesis by (auto simp: format_2f_def Let_def dest: d z)
qed

lemma data_row:
  "writerow [IPv4Address_str a, format_2f x]
     = IPv4Address_str a @ '','' @ format_2f x @ [CHR 0x0D, CHR 0x0A]"
  by (simp add: writerow_def quote_field_plain [OF IPv4Address_str_chars]
      quote_field_plain [OF format_2f_chars])

lemma format_2f_run: "format_2f (1 / 4) = ''0.25''"
  by (simp add: format_2f_def round_half_even_def str_nat.simps digit_char_def zfill_def)

lemma strftime_run:
  "strftime \<lparr>year = 2024, month = 3, day = 9, hour = 14, minute = 5, second = 0\<rparr>
     = ''20240309_140500''"
  by (simp add: strftime_def str_nat.simps digit_char_def zfill_def)

lemma IPv4Address_str_run3: "IPv4Address_str 84281096 = ''5.6.7.8''"
  by (simp add: IPv4Address_str_def to_bytes4_def str_nat.simps digit_char_def)

section \<open>Properties of the fetch and of the prompts\<close>

lemma fetch_bunny_ips_failure:
  assumes "requests_get ''https://bunnycdn.com/api/system/edgeserverlist'' 10 = Raised e \<or>
           (\<exists>response. requests_get ''https://bunnycdn.com/api/system/edgeserverlist'' 10
                = Returned response \<and>
              (400 \<le> status_code response \<and> status_code response < 600 \<or>
               json_body response = None))"
  shows "fst (fetch_bunny_ips requests_get) = JArray []"
  using assms
  by (auto simp: fetch_bunny_ips_def raise_for_status_def response_json_def split: option.splits)

lemma fetch_bunny_ips_success:
  assumes "requests_get ''https://bunnycdn.com/api/system/edgeserverlist'' 10 = Returned response"
    and "\<not> (400 \<le> status_code response \<and> status_code response < 600)"
    and "json_body response = Some v"
  shows "fetch_bunny_ips requests_get = (v, [])"
  using assms by (simp add: fetch_bunny_ips_def raise_for_status_def response_json_def)

lemma main_bunny_empty_is_fatal:
  assumes "fst (fetch_bunny_ips requests_get) = JArray []"
  shows "\<exists>out. main_bunny requests_get = Inr (Exit 1, out)"
  using assms by (cases "fetch_bunny_ips requests_get") (simp add: main_bunny_def)

lemma main_count_positive: "main_count parsed = (Continue cnt, out) \<Longrightarrow> 0 < cnt"
  by (auto simp: main_count_def split: option.splits if_splits)

lemma main_count_rejects: "cnt \<le> 0 \<Longrightarrow> fst (main_count (Some cnt)) = Exit 1"
  by (simp add: main_count_def)

section \<open>The claims\<close>

text \<open>
  \<^bold>\<open>C2.\<close> Every address sampled from a block with more than two addresses lies strictly
  between the block's network address and its broadcast address, and every address sampled
  from a block with two or fewer addresses is the block's network address. Here
  \<open>chosen_nets\<close> is the list of blocks that \<^verbatim>\<open>random.choices\<close> drew, and the \<open>i\<close>-th address
  of the result is the one sampled from the \<open>i\<close>-th drawn block.
\<close>

theorem sampled_address_host_range:
  assumes "choices networks (map num_addresses networks) cnt g = Inr (chosen_nets, g1)"
    and "generate_random_ips networks cnt g = Inr (ips, g2)"
  shows "length ips = length chosen_nets \<and>
         (\<forall>i<length ips.
            (num_addresses (chosen_nets ! i) > 2 \<longrightarrow>
               network_address (chosen_nets ! i) < ips ! i \<and>
               ips ! i < broadcast_address (chosen_nets ! i)) \<and>
            (num_addresses (chosen_nets ! i) \<le> 2 \<longrightarrow>
               ips ! i = network_address (chosen_nets ! i)))"
proof -
  have d: "list_all2 drawn chosen_nets ips" by (rule generate_random_ips_drawn [OF assms])
  then have len: "length ips = length chosen_nets" by (simp add: list_all2_lengthD)
  have "\<forall>i<length ips. drawn (chosen_nets ! i) (ips ! i)"
    using d by (simp add: list_all2_conv_all_nth)
  with len show ?thesis using drawn_host_range by blast
qed

theorem sampled_address_host_range_witness:
  "choices [\<lparr>network_address = 167772160, prefixlen = 31\<rparr>,
            \<lparr>network_address = 3232235520, prefixlen = 24\<rparr>]
     (map num_addresses [\<lparr>network_address = 167772160, prefixlen = 31\<rparr>,
                         \<lparr>network_address = 3232235520, prefixlen = 24\<rparr>]) 3 (\<lambda>i. i)
   = Inr ([\<lparr>network_address = 167772160, prefixlen = 31\<rparr>,
           \<lparr>network_address = 167772160, prefixlen = 31\<rparr>,
           \<lparr>network_address = 3232235520, prefixlen = 24\<rparr>], \<lambda>i. Suc (Suc (Suc i))) \<and>
   generate_random_ips [\<lparr>network_address = 167772160, prefixlen = 31\<rparr>,
                        \<lparr>network_address = 3232235520, prefixlen = 24\<rparr>] 3 (\<lambda>i. i)
   = Inr ([167772160, 167772160, 3232235524], \<lambda>i. Suc (Suc (Suc (Suc i)))) \<and>
   (2 < num_addresses \<lparr>network_address = 3232235520, prefixlen = 24\<rparr> \<and>
    network_address \<lparr>network_address = 3232235520, prefixlen = 24\<rparr> < 3232235524 \<and>
    3232235524 < broadcast_address \<lparr>network_address = 3232235520, prefixlen = 24\<rparr>) \<and>
   (num_addresses \<lparr>network_address = 167772160, prefixlen = 31\<rparr> \<le> 2 \<and>
    (167772160 :: nat) = network_address \<lparr>network_address = 167772160, prefixlen = 31\<rparr>)"
proof -
  note run = sampled_address_host_range [OF choices_run generate_random_ips_run]
  from run have "\<forall>i<3. (num_addresses ([\<lparr>network_address = 167772160, prefixlen = 31\<rparr>,
           \<lparr>network_address = 167772160, prefixlen = 31\<rparr>,
           \<lparr>network_address = 3232235520, prefixlen = 24\<rparr>] ! i) > 2 \<longrightarrow>
        network_address ([\<lparr>network_address = 167772160, prefixlen = 31\<rparr>,
           \<lparr>network_address = 167772160, prefixlen = 31\<rparr>,
           \<lparr>network_address = 3232235520, prefixlen = 24\<rparr>] ! i)
          < [167772160, 167772160, 3232235524 :: nat] ! i \<and>
        [167772160, 167772160, 3232235524 :: nat] ! i
          < broadcast_address ([\<lparr>network_address = 167772160, prefixlen = 31\<rparr>,
           \<lparr>network_address = 167772160, prefixlen = 31\<rparr>,
           \<lparr>network_address = 3232235520, prefixlen = 24\<rparr>] ! i))"
    by simp
  from this [rule_format, of 2]
  have "network_address \<lparr>network_address = 3232235520, prefixlen = 24\<rparr> < 3232235524 \<and>
    3232235524 < broadcast_address \<lparr>network_address = 3232235520, prefixlen = 24\<rparr>"
    by (simp add: num_addresses_slash24)
  then show ?thesis
    using choices_run generate_random_ips_run
    by (simp add: num_addresses_slash31 num_addresses_slash24)
qed

text \<open>
  \<^bold>\<open>C10.\<close> As stated, the claim bounds the offset by \<open>num_addresses - 2\<close>. A \<^verbatim>\<open>/32\<close> block has one
  address, the loop takes the offset 0 for it, and \<open>0 \<le> 1 - 2\<close> is false.
\<close>

theorem offset_bound_counterexample:
  "generate_random_ips [\<lparr>network_address = 16909060, prefixlen = 32\<rparr>] 1 (\<lambda>i. 0)
     = Inr ([16909060], \<lambda>i. 0) \<and>
   \<not> (int 16909060 - int (network_address \<lparr>network_address = 16909060, prefixlen = 32\<rparr>)
        \<le> num_addresses \<lparr>network_address = 16909060, prefixlen = 32\<rparr> - 2)"
  using generate_random_ips_slash32_run by (simp add: num_addresses_slash32)

text \<open>
  \<^bold>\<open>C10, amended.\<close> Every address returned by CIDR-mode sampling is a member of one of the
  pool's networks: for each drawn block the result is the network address plus an offset
  with \<open>0 \<le> offset \<le> max 0 (num_addresses - 2)\<close>, which never exceeds the block's broadcast
  address, so the output never contains an address outside the pool.
\<close>

theorem sampled_address_in_pool:
  assumes "choices networks (map num_addresses networks) cnt g = Inr (chosen_nets, g1)"
    and "generate_random_ips networks cnt g = Inr (ips, g2)"
  shows "length ips = length chosen_nets \<and> set chosen_nets \<subseteq> set networks \<and>
         (\<forall>i<length ips.
            0 \<le> int (ips ! i) - int (network_address (chosen_nets ! i)) \<and>
            int (ips ! i) - int (network_address (chosen_nets ! i))
              \<le> max 0 (num_addresses (chosen_nets ! i) - 2) \<and>
            ips ! i \<le> broadcast_address (chosen_nets ! i) \<and>
            contains (chosen_nets ! i) (ips ! i)) \<and>
         (\<forall>ip\<in>set ips. \<exists>net\<in>set networks. contains net ip)"
proof -
  have d: "list_all2 drawn chosen_nets ips" by (rule generate_random_ips_drawn [OF assms])
  then have len: "length ips = length chosen_nets" by (simp add: list_all2_lengthD)
  have sub: "set chosen_nets \<subseteq> set networks" by (rule choices_Inr_subset [OF assms(1)])
  have nth: "\<forall>i<length ips. drawn (chosen_nets ! i) (ips ! i)"
    using d by (simp add: list_all2_conv_all_nth)
  have a: "\<forall>i<length ips.
            0 \<le> int (ips ! i) - int (network_address (chosen_nets ! i)) \<and>
            int (ips ! i) - int (network_address (chosen_nets ! i))
              \<le> max 0 (num_addresses (chosen_nets ! i) - 2) \<and>
            ips ! i \<le> broadcast_address (chosen_nets ! i) \<and>
            contains (chosen_nets ! i) (ips ! i)"
  proof (intro allI impI)
    fix i assume "i < length ips"
    with nth have dr: "drawn (chosen_nets ! i) (ips ! i)" by simp
    from drawn_contains [OF dr] have c: "contains (chosen_nets ! i) (ips ! i)" .
    from dr c show "0 \<le> int (ips ! i) - int (network_address (chosen_nets ! i)) \<and>
            int (ips ! i) - int (network_address (chosen_nets ! i))
              \<le> max 0 (num_addresses (chosen_nets ! i) - 2) \<and>
            ips ! i \<le> broadcast_address (chosen_nets ! i) \<and>
            contains (chosen_nets ! i) (ips ! i)"
      by (auto simp: drawn_def contains_def split: if_splits)
  qed
  have b: "\<forall>ip\<in>set ips. \<exists>net\<in>set networks. contains net ip"
  proof
    fix ip assume "ip \<in> set ips"
    then obtain i where i: "i < length ips" "ips ! i = ip" by (auto simp: in_set_conv_nth)
    with a have "contains (chosen_nets ! i) ip" by auto
    moreover have "chosen_nets ! i \<in> set networks" using sub i len by auto
    ultimately show "\<exists>net\<in>set networks. contains net ip" by blast
  qed
  from len sub a b show ?thesis by blast
qed

theorem sampled_address_in_pool_witness:
  "choices [\<lparr>network_address = 16909060, prefixlen = 32\<rparr>]
     (map num_addresses [\<lparr>network_address = 16909060, prefixlen = 32\<rparr>]) 1 (\<lambda>i. 0)
     = Inr ([\<lparr>network_address = 16909060, prefixlen = 32\<rparr>], \<lambda>i. 0) \<and>
   generate_random_ips [\<lparr>network_address = 16909060, prefixlen = 32\<rparr>] 1 (\<lambda>i. 0)
     = Inr ([16909060], \<lambda>i. 0) \<and>
   contains \<lparr>network_address = 16909060, prefixlen = 32\<rparr> 16909060"
proof -
  have c: "choices [\<lparr>network_address = 16909060, prefixlen = 32\<rparr>]
     (map num_addresses [\<lparr>network_address = 16909060, prefixlen = 32\<rparr>]) 1 (\<lambda>i. 0)
     = Inr ([\<lparr>network_address = 16909060, prefixlen = 32\<rparr>], \<lambda>i. 0)"
    by (simp add: num_addresses_slash32 choices_def accumulate_def randbelow_def next_raw_def
        bisect_right.simps)
  from sampled_address_in_pool [OF c generate_random_ips_slash32_run]
  have "\<forall>ip\<in>set [16909060].
      \<exists>net\<in>set [\<lparr>network_address = 16909060, prefixlen = 32\<rparr>]. contains net ip"
    by blast
  then have "contains \<lparr>network_address = 16909060, prefixlen = 32\<rparr> 16909060" by simp
  with c generate_random_ips_slash32_run show ?thesis by blast
qed




text \<open>
  \<^bold>\<open>C4.\<close> As stated, the sampler fails when the count is not positive. Neither sampling
  function inspects the count before drawing: \<^verbatim>\<open>random.choices\<close> with \<open>k = 0\<close> draws nothing
  and \<^verbatim>\<open>random.sample\<close> with \<open>k = 0\<close> returns the empty list. (The caller, \<^verbatim>\<open>main\<close>, rejects a
  count that is not positive before it samples.)
\<close>

theorem count_not_validated_counterexample:
  "(0::int) \<le> 0 \<and>
   generate_random_ips [\<lparr>network_address = 167772160, prefixlen = 31\<rparr>] 0 (\<lambda>i. i)
     = Inr ([], \<lambda>i. i) \<and>
   generate_random_ips_from_list [''1.2.3.4'', ''5.6.7.8''] 0 (\<lambda>i. i) = Some (Inr ([], \<lambda>i. i))"
  using generate_random_ips_zero_run from_list_zero [of "[''1.2.3.4'', ''5.6.7.8'']" "\<lambda>i. i"]
  by simp

text \<open>
  \<^bold>\<open>C4, amended.\<close> CIDR-mode sampling fails when the pool is empty, whatever the count, and
  for a non-empty pool and a count \<open>\<le> 0\<close> it returns the empty sequence. Flat-list sampling
  returns the empty sequence when the pool is empty, and also when the count is 0; it fails
  for a negative count on a non-empty pool.
\<close>

theorem sampler_failures:
  "generate_random_ips [] cnt g = Inl IndexError \<and>
   generate_random_ips_from_list [] cnt g = Some (Inr ([], g)) \<and>
   (networks \<noteq> [] \<and> cnt \<le> 0 \<longrightarrow> generate_random_ips networks cnt g = Inr ([], g)) \<and>
   generate_random_ips_from_list ip_list 0 g = Some (Inr ([], g)) \<and>
   (ip_list \<noteq> [] \<and> cnt < 0 \<longrightarrow>
      generate_random_ips_from_list ip_list cnt g = Some (Inl ValueError))"
  using generate_random_ips_empty from_list_empty generate_random_ips_nonpositive from_list_zero
    from_list_negative by blast

theorem sampler_failures_witness:
  "generate_random_ips [] (-1) (\<lambda>i. i) = Inl IndexError \<and>
   generate_random_ips_from_list [] (-1) (\<lambda>i. i) = Some (Inr ([], \<lambda>i. i)) \<and>
   generate_random_ips [\<lparr>network_address = 167772160, prefixlen = 31\<rparr>] (-1) (\<lambda>i. i)
     = Inr ([], \<lambda>i. i) \<and>
   generate_random_ips_from_list [''1.2.3.4''] 0 (\<lambda>i. i) = Some (Inr ([], \<lambda>i. i)) \<and>
   generate_random_ips_from_list [''1.2.3.4''] (-1) (\<lambda>i. i) = Some (Inl ValueError)"
  using sampler_failures [of "-1" "\<lambda>i. i" "[\<lparr>network_address = 167772160, prefixlen = 31\<rparr>]"
      "[''1.2.3.4'']"]
  by simp

text \<open>
  \<^bold>\<open>C8.\<close> The samplers read the generator and nothing else, so a run is determined by the
  pool, the count and the draws it consumes. A run of CIDR-mode sampling that returns
  addresses returns \<open>N\<close> of them after \<open>d\<close> draws, \<open>N \<le> d \<le> 2 * N\<close>, leaves the generator
  advanced by \<open>d\<close>, and every run on the same pool and count from a state with the same
  first \<open>d\<close> draws returns the same addresses and leaves its generator advanced by \<open>d\<close>; a
  run that fails fails in the same way from every state with the same first \<open>2 * N\<close> draws.
  The same holds of flat-list sampling, which returns \<open>min N M\<close> addresses after no draw when
  \<open>N \<ge> M\<close>, after \<open>N\<close> draws for a pool sampled by swapping and after at least \<open>N\<close> draws
  for a pool sampled through the set of indices. In particular two runs from the same state
  give the same output. A run of CIDR-mode sampling on a non-empty pool of blocks does
  return addresses, and a run of flat-list sampling returns when \<open>N \<ge> M\<close>, when the pool is
  sampled by swapping, and when the generator delivers every index again after every point.
\<close>

theorem sampler_deterministic:
  "(generate_random_ips networks n g1 = Inr (ips, h1) \<longrightarrow>
      length ips = nat n \<and>
      (\<exists>d. nat n \<le> d \<and> d \<le> 2 * nat n \<and> h1 = advance d g1 \<and>
           (\<forall>g2. (\<forall>i<d. g2 i = g1 i) \<longrightarrow>
              generate_random_ips networks n g2 = Inr (ips, advance d g2)))) \<and>
   (generate_random_ips networks n g1 = Inl e \<and> (\<forall>i<2 * nat n. g2 i = g1 i) \<longrightarrow>
      generate_random_ips networks n g2 = Inl e) \<and>
   (generate_random_ips_from_list ip_list m g1 = Some (Inr (ips', h1')) \<longrightarrow>
      length ips' = nat (min m (int (length ip_list))) \<and>
      (\<exists>d. h1' = advance d g1 \<and>
           (int (length ip_list) \<le> m \<longrightarrow> d = 0) \<and>
           (m < int (length ip_list) \<longrightarrow> nat m \<le> d) \<and>
           (length ip_list \<le> setsize (nat m) \<longrightarrow> d \<le> nat m) \<and>
           (\<forall>g2. (\<forall>i<d. g2 i = g1 i) \<longrightarrow>
              generate_random_ips_from_list ip_list m g2 = Some (Inr (ips', advance d g2))))) \<and>
   (generate_random_ips_from_list ip_list m g1 = Some (Inl e') \<longrightarrow>
      (\<exists>d. \<forall>g2. (\<forall>i<d. g2 i = g1 i) \<longrightarrow>
             generate_random_ips_from_list ip_list m g2 = Some (Inl e'))) \<and>
   (networks \<noteq> [] \<and> (\<forall>net\<in>set networks. wf_network net) \<longrightarrow>
      (\<exists>ips h. generate_random_ips networks n g1 = Inr (ips, h))) \<and>
   (int (length ip_list) \<le> m \<or> length ip_list \<le> setsize (nat m) \<or>
    fair (length ip_list) g1 \<longrightarrow>
      (\<exists>r. generate_random_ips_from_list ip_list m g1 = Some r))"
proof (intro conjI impI)
  assume "generate_random_ips networks n g1 = Inr (ips, h1)"
  from generate_random_ips_consumes [OF this]
  show "length ips = nat n"
    and "\<exists>d. nat n \<le> d \<and> d \<le> 2 * nat n \<and> h1 = advance d g1 \<and>
           (\<forall>g2. (\<forall>i<d. g2 i = g1 i) \<longrightarrow>
              generate_random_ips networks n g2 = Inr (ips, advance d g2))"
    by simp_all
next
  assume "generate_random_ips networks n g1 = Inl e \<and> (\<forall>i<2 * nat n. g2 i = g1 i)"
  then show "generate_random_ips networks n g2 = Inl e"
    using generate_random_ips_failure [of networks n g1 e g2] by blast
next
  assume "generate_random_ips_from_list ip_list m g1 = Some (Inr (ips', h1'))"
  from from_list_consumes [OF this]
  show "length ips' = nat (min m (int (length ip_list)))"
    and "\<exists>d. h1' = advance d g1 \<and>
           (int (length ip_list) \<le> m \<longrightarrow> d = 0) \<and>
           (m < int (length ip_list) \<longrightarrow> nat m \<le> d) \<and>
           (length ip_list \<le> setsize (nat m) \<longrightarrow> d \<le> nat m) \<and>
           (\<forall>g2. (\<forall>i<d. g2 i = g1 i) \<longrightarrow>
              generate_random_ips_from_list ip_list m g2 = Some (Inr (ips', advance d g2)))"
    by simp_all
next
  assume "generate_random_ips_from_list ip_list m g1 = Some (Inl e')"
  then show "\<exists>d. \<forall>g2. (\<forall>i<d. g2 i = g1 i) \<longrightarrow>
             generate_random_ips_from_list ip_list m g2 = Some (Inl e')"
    by (rule from_list_failure)
next
  assume "networks \<noteq> [] \<and> (\<forall>net\<in>set networks. wf_network net)"
  then have ne: "networks \<noteq> []" and wf: "\<forall>net\<in>set networks. wf_network net" by simp_all
  from generate_random_ips_ok [OF ne wf, of n g1]
  show "\<exists>ips h. generate_random_ips networks n g1 = Inr (ips, h)" by blast
next
  assume "int (length ip_list) \<le> m \<or> length ip_list \<le> setsize (nat m) \<or>
    fair (length ip_list) g1"
  then show "\<exists>r. generate_random_ips_from_list ip_list m g1 = Some r"
    by (rule from_list_returns)
qed

theorem sampler_deterministic_witness:
  "generate_random_ips [\<lparr>network_address = 167772160, prefixlen = 31\<rparr>,
                        \<lparr>network_address = 3232235520, prefixlen = 24\<rparr>] 3 (\<lambda>i. i)
     = Inr ([167772160, 167772160, 3232235524], \<lambda>i. Suc (Suc (Suc (Suc i)))) \<and>
   generate_random_ips [\<lparr>network_address = 167772160, prefixlen = 31\<rparr>,
                        \<lparr>network_address = 3232235520, prefixlen = 24\<rparr>] 3
        (\<lambda>i. if i < 4 then i else 7)
     = Inr ([167772160, 167772160, 3232235524], advance 4 (\<lambda>i. if i < 4 then i else 7)) \<and>
   generate_random_ips_from_list pool22 2 (\<lambda>i. if i < 3 then [0, 0, 5] ! i else 96 + i)
     = Some (Inr ([167772160, 167772165],
                  advance 3 (\<lambda>i. if i < 3 then [0, 0, 5] ! i else 96 + i))) \<and>
   generate_random_ips_from_list pool22 2 (\<lambda>i. if i < 3 then [0, 0, 5] ! i else 7)
     = Some (Inr ([167772160, 167772165],
                  advance 3 (\<lambda>i. if i < 3 then [0, 0, 5] ! i else 7))) \<and>
   generate_random_ips [] 3 (\<lambda>i. if i < 6 then i else 0) = Inl IndexError \<and>
   generate_random_ips_from_list [''1.2.3.4''] (- 1) (\<lambda>i. i) = Some (Inl ValueError) \<and>
   (\<exists>ips h. generate_random_ips [\<lparr>network_address = 167772160, prefixlen = 31\<rparr>,
                                   \<lparr>network_address = 3232235520, prefixlen = 24\<rparr>] 3 (\<lambda>i. i)
              = Inr (ips, h)) \<and>
   (\<exists>r. generate_random_ips_from_list pool22 2
               (\<lambda>i. if i < 3 then [0, 0, 5] ! i else 96 + i) = Some r)"
proof -
  let ?nets = "[\<lparr>network_address = 167772160, prefixlen = 31\<rparr>,
                \<lparr>network_address = 3232235520, prefixlen = 24\<rparr>]"
  let ?g = "\<lambda>i::nat. if i < 3 then [0, 0, 5 :: nat] ! i else 96 + i"
  let ?g2 = "\<lambda>i::nat. if i < 4 then i else 7"
  let ?g3 = "\<lambda>i::nat. if i < 3 then [0, 0, 5 :: nat] ! i else 7"
  note t = sampler_deterministic [of ?nets 3 "\<lambda>i. i" "[167772160, 167772160, 3232235524]"
      "\<lambda>i. Suc (Suc (Suc (Suc i)))" IndexError "\<lambda>i. i" pool22 2 "[167772160, 167772165]"
      "advance 3 ?g" IndexError]
  note u = sampler_deterministic [of ?nets 3 ?g "[]" ?g IndexError ?g pool22 2
      "[167772160, 167772165]" "advance 3 ?g" IndexError]
  note t1 = mp [OF t [THEN conjunct1] generate_random_ips_run, THEN conjunct2]
  from t1 obtain d where
    D: "nat 3 \<le> d \<and> d \<le> 2 * nat 3 \<and> (\<lambda>i. Suc (Suc (Suc (Suc i)))) = advance d (\<lambda>i. i) \<and>
        (\<forall>g2. (\<forall>i<d. g2 i = i) \<longrightarrow>
           generate_random_ips ?nets 3 g2
             = Inr ([167772160, 167772160, 3232235524], advance d g2))" ..
  from D have d: "(\<lambda>i. Suc (Suc (Suc (Suc i)))) = advance d (\<lambda>i. i)" by (elim conjE)
  from D have a: "\<forall>g2. (\<forall>i<d. g2 i = i) \<longrightarrow>
           generate_random_ips ?nets 3 g2
             = Inr ([167772160, 167772160, 3232235524], advance d g2)" by (elim conjE)
  from fun_cong [OF d, of 0] have d4: "d = 4" by (simp add: advance_def)
  have agree: "\<forall>i<d. ?g2 i = i" unfolding d4 by simp
  from mp [OF spec [where x = ?g2, OF a] agree]
  have b: "generate_random_ips ?nets 3 ?g2
      = Inr ([167772160, 167772160, 3232235524], advance 4 ?g2)"
    unfolding d4 .
  note u1 = mp [OF u [THEN conjunct2, THEN conjunct2, THEN conjunct1] from_list_collision_run,
      THEN conjunct2]
  from u1 obtain d' where
    D': "advance 3 ?g = advance d' ?g \<and>
         (int (length pool22) \<le> 2 \<longrightarrow> d' = 0) \<and>
         (2 < int (length pool22) \<longrightarrow> nat 2 \<le> d') \<and>
         (length pool22 \<le> setsize (nat 2) \<longrightarrow> d' \<le> nat 2) \<and>
         (\<forall>g2. (\<forall>i<d'. g2 i = ?g i) \<longrightarrow>
            generate_random_ips_from_list pool22 2 g2
              = Some (Inr ([167772160, 167772165], advance d' g2)))" ..
  from D' have e: "advance 3 ?g = advance d' ?g" by (elim conjE)
  from D' have a': "\<forall>g2. (\<forall>i<d'. g2 i = ?g i) \<longrightarrow>
            generate_random_ips_from_list pool22 2 g2
              = Some (Inr ([167772160, 167772165], advance d' g2))" by (elim conjE)
  from fun_cong [OF e, of 0] have v: "?g d' = 99"
    by (auto simp: advance_def split: if_splits)
  have d3: "d' = 3"
  proof (cases "d' < 3")
    case True
    then have "d' = 0 \<or> d' = 1 \<or> d' = 2" by linarith
    with v show ?thesis by auto
  next
    case False
    with v show ?thesis by simp
  qed
  have agree': "\<forall>i<d'. ?g3 i = ?g i" unfolding d3 by simp
  from mp [OF spec [where x = ?g3, OF a'] agree']
  have c: "generate_random_ips_from_list pool22 2 ?g3
      = Some (Inr ([167772160, 167772165], advance 3 ?g3))"
    unfolding d3 .
  note w = sampler_deterministic [of "[]" 3 "\<lambda>i. i" "[]" "\<lambda>i. i" IndexError
      "\<lambda>i. if i < 6 then i else 0" "[''1.2.3.4'']" "- 1" "[]" "\<lambda>i. i" ValueError]
  have "generate_random_ips [] 3 (\<lambda>i. i) = Inl IndexError \<and>
      (\<forall>i<2 * nat 3. (if i < 6 then i else 0) = i)"
    by (simp add: generate_random_ips_empty)
  from mp [OF w [THEN conjunct2, THEN conjunct1] this]
  have f: "generate_random_ips [] 3 (\<lambda>i. if i < 6 then i else 0) = Inl IndexError" .
  have n1: "generate_random_ips_from_list [''1.2.3.4''] (- 1) (\<lambda>i. i) = Some (Inl ValueError)"
    by (simp add: from_list_negative)
  from mp [OF w [THEN conjunct2, THEN conjunct2, THEN conjunct2, THEN conjunct1] n1]
  obtain d'' where "\<forall>g2. (\<forall>i<d''. g2 i = i) \<longrightarrow>
      generate_random_ips_from_list [''1.2.3.4''] (- 1) g2 = Some (Inl ValueError)" ..
  from mp [OF spec [where x = "\<lambda>i. i", OF this]]
  have g: "generate_random_ips_from_list [''1.2.3.4''] (- 1) (\<lambda>i. i) = Some (Inl ValueError)"
    by simp
  have "?nets \<noteq> [] \<and> (\<forall>net\<in>set ?nets. wf_network net)"
    by (simp add: wf_network_slash31 wf_network_slash24)
  from mp [OF t [THEN conjunct2, THEN conjunct2, THEN conjunct2, THEN conjunct2, THEN conjunct1]
      this]
  have h: "\<exists>ips h. generate_random_ips ?nets 3 (\<lambda>i. i) = Inr (ips, h)" .
  have "int (length pool22) \<le> 2 \<or> length pool22 \<le> setsize (nat 2) \<or>
      fair (length pool22) ?g"
    using fair_collision by (simp add: length_pool22)
  from mp [OF u [THEN conjunct2, THEN conjunct2, THEN conjunct2, THEN conjunct2, THEN conjunct2]
      this]
  have k: "\<exists>r. generate_random_ips_from_list pool22 2 ?g = Some r" .
  from generate_random_ips_run b from_list_collision_run c f g h k show ?thesis
    by (intro conjI)
qed

text \<open>
  \<^bold>\<open>C1.\<close> The claim, like the docstring of \<^verbatim>\<open>test_ip\<close> (``Returns None on timeout''), has every
  request that times out classified as timed out. The probe returns \<^verbatim>\<open>None\<close> for the
  exceptions of class \<^verbatim>\<open>Timeout\<close> only, and \<^verbatim>\<open>requests\<close> raises \<^verbatim>\<open>ConnectionError\<close>, which is not
  one of them, when the timeout strikes while the body is read. For a server that sends its
  headers after half a second and then nothing, with a timeout of one second, the request
  times out after a second and a half, and the probe reports the address as responsive
  with that time.
\<close>

theorem test_ip_body_timeout_responds:
  "timed_out Body_timeout \<and>
   get \<lparr>network = (\<lambda>url t. Body_timeout), monotonic_start = 5, monotonic_end = 13 / 2\<rparr>
     ''http://1.2.3.4'' 1 = Raised ConnectionError \<and>
   \<not> isinstance_Timeout ConnectionError \<and>
   test_ip 16909060 1
     \<lparr>network = (\<lambda>url t. Body_timeout), monotonic_start = 5, monotonic_end = 13 / 2\<rparr>
     = Some (''1.2.3.4'', 3 / 2)"
  by (simp add: test_ip_def get_def IPv4Address_str_run)

text \<open>
  \<^bold>\<open>C5.\<close> Whenever \<^verbatim>\<open>check_ips\<close> returns: the counter starts at 0; after every prefix of the
  course it equals the number of futures handed to the loop so far (one increment for each,
  whatever the outcome), no future having been handed out twice, and it never exceeds the
  total; at the return it equals the total, which is the number of submitted addresses, every
  future has been handed out exactly once and every future is finished with the outcome of
  its probe.
\<close>

theorem progress_counter:
  assumes "check_ips ips workers timeout world events = Inr (Some r)"
  shows "pbar_n (pbar (submitted ips)) = 0 \<and>
         (\<forall>es1 es2. events = es1 @ es2 \<longrightarrow>
            (\<exists>s1. run ips workers timeout world es1 (submitted ips) = Some s1 \<and>
                  pbar_total (pbar s1) = length ips \<and>
                  pbar_n (pbar s1) = length (filter is_Yield es1) \<and>
                  pbar_n (pbar s1) = length (yielded s1) \<and>
                  distinct (yielded s1) \<and>
                  pbar_n (pbar s1) \<le> length ips)) \<and>
         (\<exists>s. run ips workers timeout world events (submitted ips) = Some s \<and>
              r = responsive s \<and>
              pbar_n (pbar s) = length ips \<and>
              length (filter is_Yield events) = length ips \<and>
              mset (yielded s) = mset [0..<length ips] \<and>
              (\<forall>i<length ips. futures s ! i = FINISHED (outcome ips timeout world i)))"
proof (intro conjI allI impI)
  show "pbar_n (pbar (submitted ips)) = 0" by (simp add: submitted_def)
next
  fix es1 es2 assume e: "events = es1 @ es2"
  from check_ips_Some [OF assms] obtain s
    where "run ips workers timeout world events (submitted ips) = Some s" by blast
  with e run_prefix [of ips workers timeout world es1 es2 "submitted ips" s] obtain s1
    where r1: "run ips workers timeout world es1 (submitted ips) = Some s1" by blast
  have c: "consistent ips timeout world s1"
    by (rule run_consistent [OF consistent_submitted r1])
  have n: "pbar_n (pbar s1) = length (filter is_Yield es1)"
    using run_counter [OF r1] by (simp add: submitted_def)
  from c have "pbar_total (pbar s1) = length ips" "pbar_n (pbar s1) = length (yielded s1)"
    "distinct (yielded s1)" by (simp_all add: consistent_def)
  moreover from this yielded_bound [OF c] have "pbar_n (pbar s1) \<le> length ips" by simp
  ultimately show "\<exists>s1. run ips workers timeout world es1 (submitted ips) = Some s1 \<and>
                  pbar_total (pbar s1) = length ips \<and>
                  pbar_n (pbar s1) = length (filter is_Yield es1) \<and>
                  pbar_n (pbar s1) = length (yielded s1) \<and>
                  distinct (yielded s1) \<and>
                  pbar_n (pbar s1) \<le> length ips"
    using r1 n by blast
next
  from check_ips_Some [OF assms] obtain s
    where r: "run ips workers timeout world events (submitted ips) = Some s"
      and x: "exhausted s" and res: "r = responsive s" by blast
  have c: "consistent ips timeout world s" by (rule run_consistent [OF consistent_submitted r])
  have n: "pbar_n (pbar s) = length (filter is_Yield events)"
    using run_counter [OF r] by (simp add: submitted_def)
  from c x have full: "pbar_n (pbar s) = length ips" by (simp add: consistent_def exhausted_def)
  note exhausted_all_finished [OF c x]
  with r res full n
  show "\<exists>s. run ips workers timeout world events (submitted ips) = Some s \<and>
              r = responsive s \<and>
              pbar_n (pbar s) = length ips \<and>
              length (filter is_Yield events) = length ips \<and>
              mset (yielded s) = mset [0..<length ips] \<and>
              (\<forall>i<length ips. futures s ! i = FINISHED (outcome ips timeout world i))"
    by (intro exI [of _ s]) simp
qed

theorem progress_counter_witness:
  "check_ips [16909060, 84281096] 2 1 world2
     [Start 0, Start 1, Finish 1, Yield 1, Finish 0, Yield 0] = Inr (Some [(''5.6.7.8'', 1 / 4)]) \<and>
   (\<exists>s1. run [16909060, 84281096] 2 1 world2 [Start 0, Start 1, Finish 1, Yield 1]
            (submitted [16909060, 84281096]) = Some s1 \<and>
         pbar_total (pbar s1) = 2 \<and> pbar_n (pbar s1) = 1) \<and>
   (\<exists>s. run [16909060, 84281096] 2 1 world2 [Start 0, Start 1, Finish 1, Yield 1, Finish 0, Yield 0]
           (submitted [16909060, 84281096]) = Some s \<and>
        [(''5.6.7.8'', 1 / 4)] = responsive s \<and> pbar_n (pbar s) = 2 \<and>
        futures s ! 0 = FINISHED (outcome [16909060, 84281096] 1 world2 0) \<and>
        futures s ! 1 = FINISHED (outcome [16909060, 84281096] 1 world2 1))"
proof -
  note t = progress_counter [OF check_ips_two]
  have pre: "[Start 0, Start 1, Finish 1, Yield 1, Finish 0, Yield 0]
      = [Start 0, Start 1, Finish 1, Yield 1] @ [Finish 0, Yield 0]" by simp
  from t [THEN conjunct2, THEN conjunct1, THEN spec, THEN spec, THEN mp, OF pre] obtain s1
    where r1: "run [16909060, 84281096] 2 1 world2 [Start 0, Start 1, Finish 1, Yield 1]
            (submitted [16909060, 84281096]) = Some s1"
      and tot: "pbar_total (pbar s1) = length [16909060 :: nat, 84281096]"
      and cnt: "pbar_n (pbar s1) = length (filter is_Yield [Start 0, Start 1, Finish 1, Yield 1])"
    by blast
  from tot have tot': "pbar_total (pbar s1) = 2" by simp
  from cnt have cnt': "pbar_n (pbar s1) = 1" by simp
  from r1 tot' cnt'
  have a: "\<exists>s1. run [16909060, 84281096] 2 1 world2 [Start 0, Start 1, Finish 1, Yield 1]
            (submitted [16909060, 84281096]) = Some s1 \<and>
         pbar_total (pbar s1) = 2 \<and> pbar_n (pbar s1) = 1"
    by blast
  from t [THEN conjunct2, THEN conjunct2] obtain s
    where r: "run [16909060, 84281096] 2 1 world2 [Start 0, Start 1, Finish 1, Yield 1, Finish 0, Yield 0]
           (submitted [16909060, 84281096]) = Some s"
      and res: "[(''5.6.7.8'', 1 / 4)] = responsive s"
      and n: "pbar_n (pbar s) = length [16909060 :: nat, 84281096]"
      and f: "\<forall>i<length [16909060 :: nat, 84281096].
                futures s ! i = FINISHED (outcome [16909060, 84281096] 1 world2 i)"
    by blast
  from f have "futures s ! 0 = FINISHED (outcome [16909060, 84281096] 1 world2 0)"
    and "futures s ! 1 = FINISHED (outcome [16909060, 84281096] 1 world2 1)" by simp_all
  moreover from n have "pbar_n (pbar s) = 2" by simp
  ultimately have b: "\<exists>s. run [16909060, 84281096] 2 1 world2
           [Start 0, Start 1, Finish 1, Yield 1, Finish 0, Yield 0]
           (submitted [16909060, 84281096]) = Some s \<and>
        [(''5.6.7.8'', 1 / 4)] = responsive s \<and> pbar_n (pbar s) = 2 \<and>
        futures s ! 0 = FINISHED (outcome [16909060, 84281096] 1 world2 0) \<and>
        futures s ! 1 = FINISHED (outcome [16909060, 84281096] 1 world2 1)"
    using r res by blast
  from check_ips_two a b show ?thesis by (intro conjI)
qed

text \<open>
  \<^bold>\<open>C6.\<close> In every state of a call the list \<^verbatim>\<open>responsive\<close> consists of the outcomes that are
  not timeouts of the futures handed to the loop, one pair each and in that order; a
  timed-out probe contributes nothing. So it is never longer than the batch, and at the
  return it holds, up to order, exactly the responding probes of the whole batch.
\<close>

theorem result_set:
  assumes "run ips workers timeout world events (submitted ips) = Some s"
  shows "responsive s = List.map_filter (outcome ips timeout world) (yielded s) \<and>
         distinct (yielded s) \<and> set (yielded s) \<subseteq> {..<length ips} \<and>
         length (responsive s) \<le> length ips \<and>
         (0 < workers \<and> exhausted s \<longrightarrow>
            check_ips ips workers timeout world events = Inr (Some (responsive s)) \<and>
            mset (responsive s)
              = mset (List.map_filter (outcome ips timeout world) [0..<length ips]))"
proof -
  have c: "consistent ips timeout world s"
    by (rule run_consistent [OF consistent_submitted assms])
  then have r: "responsive s = List.map_filter (outcome ips timeout world) (yielded s)"
    and d: "distinct (yielded s)" and b: "set (yielded s) \<subseteq> {..<length ips}"
    by (auto simp: consistent_def list_all_iff)
  have "length (responsive s) \<le> length (yielded s)" unfolding r by (rule length_map_filter_le)
  with yielded_bound [OF c] have l: "length (responsive s) \<le> length ips" by simp
  have "0 < workers \<and> exhausted s \<longrightarrow>
            check_ips ips workers timeout world events = Inr (Some (responsive s)) \<and>
            mset (responsive s)
              = mset (List.map_filter (outcome ips timeout world) [0..<length ips])"
  proof
    assume a: "0 < workers \<and> exhausted s"
    then have "check_ips ips workers timeout world events = Inr (Some (responsive s))"
      using assms by (simp add: check_ips_def)
    moreover have "mset (yielded s) = mset [0..<length ips]"
      using exhausted_all_finished(2) [OF c] a by simp
    then have "mset (responsive s)
        = mset (List.map_filter (outcome ips timeout world) [0..<length ips])"
      unfolding r by (rule mset_map_filter)
    ultimately show "check_ips ips workers timeout world events = Inr (Some (responsive s)) \<and>
            mset (responsive s)
              = mset (List.map_filter (outcome ips timeout world) [0..<length ips])" ..
  qed
  with r d b l show ?thesis by blast
qed

theorem result_set_witness:
  "run [16909060, 84281096] 2 1 world2 [Start 0, Start 1, Finish 1, Yield 1, Finish 0, Yield 0]
     (submitted [16909060, 84281096])
   = Some \<lparr>futures = [FINISHED None, FINISHED (Some (''5.6.7.8'', 1 / 4))], yielded = [1, 0],
           responsive = [(''5.6.7.8'', 1 / 4)],
           pbar = \<lparr>pbar_total = 2, pbar_n = 2, pbar_postfix = Postfix_timeout 16909060\<rparr>\<rparr> \<and>
   [(''5.6.7.8'', 1 / 4)] = List.map_filter (outcome [16909060, 84281096] 1 world2) [1, 0] \<and>
   check_ips [16909060, 84281096] 2 1 world2
     [Start 0, Start 1, Finish 1, Yield 1, Finish 0, Yield 0] = Inr (Some [(''5.6.7.8'', 1 / 4)]) \<and>
   mset [(''5.6.7.8'', 1 / 4 :: real)]
     = mset (List.map_filter (outcome [16909060, 84281096] 1 world2)
              [0..<length [16909060 :: nat, 84281096]])"
proof -
  let ?S = "\<lparr>futures = [FINISHED None, FINISHED (Some (''5.6.7.8'', 1 / 4 :: real))],
            yielded = [1, 0], responsive = [(''5.6.7.8'', 1 / 4)],
            pbar = \<lparr>pbar_total = 2, pbar_n = 2, pbar_postfix = Postfix_timeout 16909060\<rparr>\<rparr>"
  note t = result_set [OF run_two]
  have x: "(0::int) < 2 \<and> exhausted ?S" by (simp add: exhausted_def)
  from t [THEN conjunct1]
  have a: "[(''5.6.7.8'', 1 / 4)] = List.map_filter (outcome [16909060, 84281096] 1 world2) [1, 0]"
    by (simp only: scheduler.select_convs)
  from t [THEN conjunct2, THEN conjunct2, THEN conjunct2, THEN conjunct2, THEN mp, OF x]
  have b: "check_ips [16909060, 84281096] 2 1 world2
     [Start 0, Start 1, Finish 1, Yield 1, Finish 0, Yield 0] = Inr (Some [(''5.6.7.8'', 1 / 4)]) \<and>
   mset [(''5.6.7.8'', 1 / 4 :: real)]
     = mset (List.map_filter (outcome [16909060, 84281096] 1 world2)
              [0..<length [16909060 :: nat, 84281096]])"
    by (simp only: scheduler.select_convs)
  from run_two a b show ?thesis by (intro conjI) (erule conjunct1 conjunct2 | assumption)+
qed

text \<open>
  \<^bold>\<open>C7.\<close> The report writes a file if and only if at least one address responded. The file is
  named \<^verbatim>\<open>responsive_ips_<pool>_<stamp>.csv\<close>; it starts with the header row
  \<^verbatim>\<open>ip,response_time_s\<close> and has one row for each responsive address, the row of an address
  being its string, a comma and the elapsed time. A time that is not negative is printed as
  digits, a dot and two digits, and the number printed is within half a hundredth of the
  time. The stamp of a date from the year 1000 on is eight digits, an underscore and six
  digits, which are the year on four digits and the month, the day, the hour, the minute and
  the second on two digits each. When no address responded the only effect is the console
  message.
\<close>

theorem report_written_iff_responded:
  "(rs \<noteq> [] \<longrightarrow>
      filter is_Write_file (main_report choice now timeout rs)
        = [Write_file (''responsive_ips_'' @ choice @ ''_'' @ strftime now @ ''.csv'')
             (''ip,response_time_s'' @ [CHR 0x0D, CHR 0x0A] @
              concat (map (\<lambda>(ip, elapsed). writerow [ip, format_2f elapsed]) rs))]) \<and>
   (rs = [] \<longrightarrow> main_report choice now timeout rs = [Print_no_response timeout]) \<and>
   ((\<exists>e\<in>set (main_report choice now timeout rs). is_Write_file e) \<longleftrightarrow> rs \<noteq> []) \<and>
   writerow [IPv4Address_str a, format_2f x]
     = IPv4Address_str a @ '','' @ format_2f x @ [CHR 0x0D, CHR 0x0A] \<and>
   (0 \<le> x \<longrightarrow>
      two_decimals (format_2f x) \<and> \<bar>decimal_value (format_2f x) - x\<bar> \<le> 1 / 200) \<and>
   (valid_datetime now \<and> 1000 \<le> year now \<longrightarrow>
      length (strftime now) = 15 \<and> list_all isdigit (take 8 (strftime now)) \<and>
      strftime now ! 8 = CHR ''_'' \<and> list_all isdigit (drop 9 (strftime now)) \<and>
      int_of_digits (take 4 (strftime now)) = year now \<and>
      int_of_digits (take 2 (drop 4 (strftime now))) = month now \<and>
      int_of_digits (take 2 (drop 6 (strftime now))) = day now \<and>
      int_of_digits (take 2 (drop 9 (strftime now))) = hour now \<and>
      int_of_digits (take 2 (drop 11 (strftime now))) = minute now \<and>
      int_of_digits (take 2 (drop 13 (strftime now))) = second now)"
proof -
  have 1: "rs \<noteq> [] \<longrightarrow>
      filter is_Write_file (main_report choice now timeout rs)
        = [Write_file (''responsive_ips_'' @ choice @ ''_'' @ strftime now @ ''.csv'')
             (''ip,response_time_s'' @ [CHR 0x0D, CHR 0x0A] @
              concat (map (\<lambda>(ip, elapsed). writerow [ip, format_2f elapsed]) rs))]"
    unfolding writes_of_report header_row by simp
  have 2: "rs = [] \<longrightarrow> main_report choice now timeout rs = [Print_no_response timeout]"
    by (simp add: main_report_def)
  have 3: "(\<exists>e\<in>set (main_report choice now timeout rs). is_Write_file e) \<longleftrightarrow> rs \<noteq> []"
    unfolding write_iff writes_of_report by simp
  have 4: "writerow [IPv4Address_str a, format_2f x]
     = IPv4Address_str a @ '','' @ format_2f x @ [CHR 0x0D, CHR 0x0A]" by (rule data_row)
  have 5: "0 \<le> x \<longrightarrow>
      two_decimals (format_2f x) \<and> \<bar>decimal_value (format_2f x) - x\<bar> \<le> 1 / 200"
    using format_2f_two_decimals format_2f_value(2) by blast
  have 6: "valid_datetime now \<and> 1000 \<le> year now \<longrightarrow>
      length (strftime now) = 15 \<and> list_all isdigit (take 8 (strftime now)) \<and>
      strftime now ! 8 = CHR ''_'' \<and> list_all isdigit (drop 9 (strftime now)) \<and>
      int_of_digits (take 4 (strftime now)) = year now \<and>
      int_of_digits (take 2 (drop 4 (strftime now))) = month now \<and>
      int_of_digits (take 2 (drop 6 (strftime now))) = day now \<and>
      int_of_digits (take 2 (drop 9 (strftime now))) = hour now \<and>
      int_of_digits (take 2 (drop 11 (strftime now))) = minute now \<and>
      int_of_digits (take 2 (drop 13 (strftime now))) = second now"
  proof
    assume "valid_datetime now \<and> 1000 \<le> year now"
    then have v: "valid_datetime now" and y: "1000 \<le> year now" by simp_all
    from strftime_shape [OF v y] strftime_fields [OF v y]
    show "length (strftime now) = 15 \<and> list_all isdigit (take 8 (strftime now)) \<and>
      strftime now ! 8 = CHR ''_'' \<and> list_all isdigit (drop 9 (strftime now)) \<and>
      int_of_digits (take 4 (strftime now)) = year now \<and>
      int_of_digits (take 2 (drop 4 (strftime now))) = month now \<and>
      int_of_digits (take 2 (drop 6 (strftime now))) = day now \<and>
      int_of_digits (take 2 (drop 9 (strftime now))) = hour now \<and>
      int_of_digits (take 2 (drop 11 (strftime now))) = minute now \<and>
      int_of_digits (take 2 (drop 13 (strftime now))) = second now"
      by (intro conjI) (erule conjunct1 conjunct2 | assumption | simp)+
  qed
  from 1 2 3 4 5 6 show ?thesis by (intro conjI)
qed

theorem report_written_iff_responded_witness:
  "filter is_Write_file
     (main_report ''fastly'' \<lparr>year = 2024, month = 3, day = 9, hour = 14, minute = 5, second = 0\<rparr>
        1 [(''5.6.7.8'', 1 / 4)])
     = [Write_file ''responsive_ips_fastly_20240309_140500.csv''
          (''ip,response_time_s'' @ [CHR 0x0D, CHR 0x0A] @ ''5.6.7.8,0.25'' @ [CHR 0x0D, CHR 0x0A])] \<and>
   main_report ''fastly'' \<lparr>year = 2024, month = 3, day = 9, hour = 14, minute = 5, second = 0\<rparr>
        1 [] = [Print_no_response 1] \<and>
   two_decimals ''0.25'' \<and> \<bar>decimal_value ''0.25'' - 1 / 4\<bar> \<le> 1 / 200 \<and>
   valid_datetime \<lparr>year = 2024, month = 3, day = 9, hour = 14, minute = 5, second = 0\<rparr> \<and>
   length (strftime \<lparr>year = 2024, month = 3, day = 9, hour = 14, minute = 5, second = 0\<rparr>) = 15 \<and>
   int_of_digits (take 4 ''20240309_140500'') = 2024 \<and>
   int_of_digits (take 2 (drop 11 ''20240309_140500'')) = 5"
proof -
  let ?D = "\<lparr>year = 2024, month = 3, day = 9, hour = 14, minute = 5, second = 0\<rparr>"
  note t = report_written_iff_responded [of "[(''5.6.7.8'', 1 / 4)]" "''fastly''" ?D 1 84281096 "1 / 4"]
  note u = report_written_iff_responded [of "[]" "''fastly''" ?D 1 84281096 "1 / 4"]
  have v: "valid_datetime ?D \<and> 1000 \<le> year ?D" by (simp add: valid_datetime_def)
  have row: "writerow [''5.6.7.8'', ''0.25''] = ''5.6.7.8,0.25'' @ [CHR 0x0D, CHR 0x0A]"
    using t [THEN conjunct2, THEN conjunct2, THEN conjunct2, THEN conjunct1]
    by (simp add: IPv4Address_str_run3 format_2f_run)
  have a: "filter is_Write_file (main_report ''fastly'' ?D 1 [(''5.6.7.8'', 1 / 4)])
     = [Write_file ''responsive_ips_fastly_20240309_140500.csv''
          (''ip,response_time_s'' @ [CHR 0x0D, CHR 0x0A] @ ''5.6.7.8,0.25'' @ [CHR 0x0D, CHR 0x0A])]"
    using t [THEN conjunct1] row by (simp add: strftime_run format_2f_run)
  have b: "main_report ''fastly'' ?D 1 [] = [Print_no_response 1]"
    using u [THEN conjunct2, THEN conjunct1] by simp
  have c: "two_decimals ''0.25'' \<and> \<bar>decimal_value ''0.25'' - 1 / 4\<bar> \<le> 1 / 200"
    using t [THEN conjunct2, THEN conjunct2, THEN conjunct2, THEN conjunct2, THEN conjunct1]
    by (simp add: format_2f_run)
  note s = mp [OF t [THEN conjunct2, THEN conjunct2, THEN conjunct2, THEN conjunct2, THEN conjunct2] v]
  have d: "length (strftime ?D) = 15" using s by (rule conjunct1)
  have e: "int_of_digits (take 4 ''20240309_140500'') = 2024"
    using s [THEN conjunct2, THEN conjunct2, THEN conjunct2, THEN conjunct2, THEN conjunct1]
    unfolding strftime_run by simp
  have f: "int_of_digits (take 2 (drop 11 ''20240309_140500'')) = 5"
    using s [THEN conjunct2, THEN conjunct2, THEN conjunct2, THEN conjunct2, THEN conjunct2,
        THEN conjunct2, THEN conjunct2, THEN conjunct2, THEN conjunct1]
    unfolding strftime_run by simp
  from v have v': "valid_datetime ?D" by (rule conjunct1)
  from a b c v' d e f show ?thesis by (intro conjI) (erule conjunct1 conjunct2 | assumption)+
qed

text \<open>
  \<^bold>\<open>C9.\<close> The claim, like the docstring of \<^verbatim>\<open>fetch_bunny_ips\<close>, says that the result is always a
  list. The function returns \<^verbatim>\<open>response.json()\<close> unchecked: when the endpoint answers with
  status 200 and a JSON object, the result is that object, the caller takes it for a
  non-empty list of addresses and goes on.
\<close>

theorem fetch_bunny_ips_returns_object:
  "fetch_bunny_ips
     (\<lambda>url t. Returned \<lparr>status_code = 200,
                         json_body = Some (JObject [(''Message'', JString ''Unauthorized'')])\<rparr>)
     = (JObject [(''Message'', JString ''Unauthorized'')], []) \<and>
   main_bunny
     (\<lambda>url t. Returned \<lparr>status_code = 200,
                         json_body = Some (JObject [(''Message'', JString ''Unauthorized'')])\<rparr>)
     = Inr (Continue (JObject [(''Message'', JString ''Unauthorized'')]),
            [Print ''Fetching Bunny CDN IP addresses...'',
             Print ''Fetched 1 Bunny CDN IP addresses.''])"
  by (simp add: fetch_bunny_ips_def raise_for_status_def response_json_def main_bunny_def
      str_nat.simps digit_char_def)

end
